theory Spec2Isabelle
  imports Complex_Main
begin

section \<open>The bubble field of the slingshot game\<close>

text \<open>
  A shallow embedding of the simulation core of the component \<open>GeminiSlingshot\<close>:
  the hex grid (\<open>getBubblePos\<close>, \<open>isNeighbor\<close>), the ceiling drop (\<open>dropCeiling\<close>), the
  match engine (\<open>checkMatches\<close>), the targeting test (\<open>isPathClear\<close>) and the parts of the
  frame handler \<open>onResults\<close> that aim, release and land the projectile.

  JavaScript numbers that hold pixel coordinates, distances and velocities are modelled as
  real numbers (rounding is not modelled); rows, columns, point values and the score, which
  the code only ever computes as whole numbers, are integers. The mutable refs of the
  component (\<open>bubbles.current\<close>, \<open>ballPos.current\<close>, ...) are the fields of one state record
  that every operation takes and returns. A \<open>Bubble\<close> object is referred to by its position
  in \<open>bubbles.current\<close>, so that a mutation through one reference is seen through all.
\<close>

subsection \<open>Constants\<close>

definition BUBBLE_RADIUS :: real where
  "BUBBLE_RADIUS = 22"

definition ROW_HEIGHT :: real where
  "ROW_HEIGHT = BUBBLE_RADIUS * sqrt 3"

definition GRID_COLS :: int where
  "GRID_COLS = 12"

definition SLINGSHOT_BOTTOM_OFFSET :: real where
  "SLINGSHOT_BOTTOM_OFFSET = 220"

definition PINCH_THRESHOLD :: real where
  "PINCH_THRESHOLD = 0.05"

definition MAX_DRAG_DIST :: real where
  "MAX_DRAG_DIST = 180"

definition MIN_FORCE_MULT :: real where
  "MIN_FORCE_MULT = 0.15"

definition MAX_FORCE_MULT :: real where
  "MAX_FORCE_MULT = 0.45"

subsection \<open>Data\<close>

text \<open>
  Modelled from the spec: the declarations of \<open>BubbleColor\<close>, \<open>Point\<close> and \<open>Bubble\<close> are in
  \<open>../types\<close>, which is not among the sources. The colours are the six keys of \<open>COLOR_KEYS\<close>
  and \<open>COLOR_CONFIG\<close>; the fields of a bubble are those of the data model of the
  specification (identity, row and column, cached pixel position, colour, active flag),
  which are also the fields of the object literals that \<open>initGrid\<close>, \<open>dropCeiling\<close> and
  \<open>onResults\<close> build.
\<close>

datatype BubbleColor = Red | Blue | Green | Yellow | Purple | Orange

text \<open>\<open>COLOR_CONFIG[c].points\<close>.\<close>

fun points :: "BubbleColor \<Rightarrow> int" where
  "points Red = 100"
| "points Blue = 150"
| "points Green = 200"
| "points Yellow = 250"
| "points Purple = 300"
| "points Orange = 500"

text \<open>
  The \<open>id\<close> of a bubble is a string built from numbers: \<open>`${r}-${c}-${Date.now()}`\<close> for a
  bubble of the initial grid or a landed one, \<open>`new-${Date.now()}-${c}`\<close> for a bubble of a
  dropped row. Two such strings are equal exactly when they have the same shape and the
  same numbers, which is equality of the following values.
\<close>

datatype BubbleId = CellId int int int | NewId int int

record Point =
  x_p :: real
  y_p :: real

text \<open>
  The fields \<open>id\<close>, \<open>x\<close> and \<open>y\<close> of \<open>Bubble\<close> carry the suffix \<open>_b\<close>; the other fields keep
  their names.
\<close>

record Bubble =
  id_b :: BubbleId
  row :: int
  col :: int
  x_b :: real
  y_b :: real
  color :: BubbleColor
  active :: bool

subsection \<open>The hex grid\<close>

text \<open>
  \<open>getBubblePos(row, col, width)\<close>. \<open>row % 2 !== 0\<close> tests whether the row is odd, for a
  negative row as well.
\<close>

definition getBubblePos :: "int \<Rightarrow> int \<Rightarrow> real \<Rightarrow> Point" where
  "getBubblePos r c width =
     (let xOffset = (width - (real_of_int GRID_COLS * BUBBLE_RADIUS * 2)) / 2 + BUBBLE_RADIUS;
          isOdd = (r mod 2 \<noteq> 0);
          x = xOffset + real_of_int c * (BUBBLE_RADIUS * 2) + (if isOdd then BUBBLE_RADIUS else 0);
          y = BUBBLE_RADIUS + real_of_int r * ROW_HEIGHT
      in \<lparr>x_p = x, y_p = y\<rparr>)"

text \<open>\<open>isNeighbor(a, b)\<close>, with its early returns in the order of the source.\<close>

definition isNeighbor :: "Bubble \<Rightarrow> Bubble \<Rightarrow> bool" where
  "isNeighbor a b =
     (let dr = row b - row a;
          dc = col b - col a
      in if \<bar>dr\<bar> > 1 then False
         else if dr = 0 then \<bar>dc\<bar> = 1
         else if row a mod 2 \<noteq> 0 then (dc = 0 \<or> dc = 1)
         else (dc = -1 \<or> dc = 0))"

subsection \<open>The state of the game\<close>

text \<open>
  The refs of the component that the simulation reads and writes, the \<open>isGameOver\<close> flag
  (set through \<open>setIsGameOver\<close>) and the size of the canvas.
\<close>

record Game =
  ballPos :: Point
  ballVel :: Point
  anchorPos :: Point
  isPinching :: bool
  isFlying :: bool
  flightStartTime :: real
  bubbles :: "Bubble list"
  scoreRef :: int
  selectedColorRef :: BubbleColor
  isGameOver :: bool
  canvasWidth :: real
  canvasHeight :: real

subsection \<open>The ceiling drop\<close>

text \<open>
  Step 1 of \<open>dropCeiling\<close>, for one bubble: \<open>b.row += 1\<close>, then the pixel position is
  recomputed from the new row. The loop runs over every element of \<open>bubbles.current\<close>,
  popped bubbles included.
\<close>

definition shiftDown :: "real \<Rightarrow> Bubble \<Rightarrow> Bubble" where
  "shiftDown width b =
     (let b1 = b\<lparr>row := row b + 1\<rparr>;
          p = getBubblePos (row b1) (col b1) width
      in b1\<lparr>x_b := x_p p, y_b := y_p p\<rparr>)"

text \<open>
  Step 2: the bubble pushed for column \<open>c\<close> of the new row 0. \<open>now\<close> is the value of
  \<open>Date.now()\<close>, and \<open>pick c\<close> the colour that
  \<open>COLOR_KEYS[Math.floor(Math.random() * COLOR_KEYS.length)]\<close> draws for that column: both are
  inputs of the model.
\<close>

definition newRowBubble :: "real \<Rightarrow> int \<Rightarrow> (int \<Rightarrow> BubbleColor) \<Rightarrow> int \<Rightarrow> Bubble" where
  "newRowBubble width now pick c =
     (let p = getBubblePos 0 c width
      in \<lparr>id_b = NewId now c, row = 0, col = c, x_b = x_p p, y_b = y_p p,
          color = pick c, active = True\<rparr>)"

definition newRowBubbles :: "real \<Rightarrow> int \<Rightarrow> (int \<Rightarrow> BubbleColor) \<Rightarrow> Bubble list" where
  "newRowBubbles width now pick =
     (let colsInRow = GRID_COLS
      in map (\<lambda>c. newRowBubble width now pick (int c)) [0..<nat colsInRow])"

text \<open>
  Step 4: \<open>bubbles.current.reduce((max, b) => Math.max(max, b.y), 0)\<close>. The reduction takes
  every bubble of the array, whatever its \<open>active\<close> flag.
\<close>

definition lowestBubble :: "Bubble list \<Rightarrow> real" where
  "lowestBubble bs = foldl (\<lambda>mx b. max mx (y_b b)) 0 bs"

text \<open>
  \<open>dropCeiling(width)\<close>. The sound, the screen shake and \<open>updateAvailableColors\<close> change
  none of the fields of the state and are left out.
\<close>

definition dropCeiling :: "real \<Rightarrow> int \<Rightarrow> (int \<Rightarrow> BubbleColor) \<Rightarrow> Game \<Rightarrow> Game" where
  "dropCeiling width now pick s =
     (let shifted = map (shiftDown width) (bubbles s);
          bs = newRowBubbles width now pick @ shifted;
          dangerY = y_p (anchorPos s) - 150
      in s\<lparr>bubbles := bs,
           isGameOver := (if lowestBubble bs > dangerY then True else isGameOver s)\<rparr>)"

subsection \<open>Example states\<close>

text \<open>
  A state in which the only bubble is a popped one in row 8: a canvas 1000 wide and 720
  high, so that the anchor is at \<open>y = 500\<close> and the danger line at \<open>y = 350\<close>.
\<close>

definition poppedLowState :: Game where
  "poppedLowState =
     \<lparr>ballPos = \<lparr>x_p = 500, y_p = 500\<rparr>, ballVel = \<lparr>x_p = 0, y_p = 0\<rparr>,
      anchorPos = \<lparr>x_p = 500, y_p = 500\<rparr>, isPinching = False, isFlying = False,
      flightStartTime = 0,
      bubbles = [\<lparr>id_b = CellId 8 0 1, row = 8, col = 0, x_b = 258, y_b = 22 + 8 * ROW_HEIGHT,
                  color = Red, active = False\<rparr>],
      scoreRef = 300, selectedColorRef = Red, isGameOver = False,
      canvasWidth = 1000, canvasHeight = 720\<rparr>"

subsection \<open>The match engine\<close>

text \<open>
  Inside the loop of \<open>checkMatches\<close>:
  \<open>bubbles.current.filter(b => b.active && !visited.has(b.id) && isNeighbor(current, b))\<close>,
  as the list of the positions of the bubbles kept, in the order of the array.
\<close>

definition neighborsOf :: "Bubble list \<Rightarrow> BubbleId list \<Rightarrow> nat \<Rightarrow> nat list" where
  "neighborsOf bs visited current =
     filter (\<lambda>j. active (bs ! j) \<and> id_b (bs ! j) \<notin> set visited \<and> isNeighbor (bs ! current) (bs ! j))
       [0..<length bs]"

text \<open>
  The \<open>while (toCheck.length > 0)\<close> loop of \<open>checkMatches\<close>, returning \<open>matches\<close>. The head
  of \<open>toCheck\<close> is the top of the stack: \<open>toCheck.pop()\<close> takes it, and
  \<open>toCheck.push(...neighbors)\<close> leaves the last neighbour on top. \<open>visited\<close> is the set of
  \<open>id\<close>s, kept as a list.
\<close>

function floodFill ::
  "Bubble list \<Rightarrow> BubbleColor \<Rightarrow> nat list \<Rightarrow> BubbleId list \<Rightarrow> nat list \<Rightarrow> nat list" where
  "floodFill bs targetColor [] visited matches = matches"
| "floodFill bs targetColor (current # toCheck) visited matches =
     (if id_b (bs ! current) \<in> set visited
      then floodFill bs targetColor toCheck visited matches
      else if color (bs ! current) = targetColor
      then floodFill bs targetColor
             (rev (neighborsOf bs (id_b (bs ! current) # visited) current) @ toCheck)
             (id_b (bs ! current) # visited) (matches @ [current])
      else floodFill bs targetColor toCheck (id_b (bs ! current) # visited) matches)"
  by pat_completeness auto

text \<open>
  The loop ends: every round either marks an \<open>id\<close> that was not yet visited, among those of
  the array and of the stack, or leaves the marks alone and shortens the stack.
\<close>

definition unvisitedIds :: "Bubble list \<Rightarrow> nat list \<Rightarrow> BubbleId list \<Rightarrow> BubbleId set" where
  "unvisitedIds bs toCheck visited =
     (\<lambda>i. id_b (bs ! i)) ` (set toCheck \<union> {..<length bs}) - set visited"

termination floodFill
proof (relation "measures
    [\<lambda>(bs, tc, toCheck, visited, matches). card (unvisitedIds bs toCheck visited),
     \<lambda>(bs, tc, toCheck, visited, matches). length toCheck]", goal_cases)
  case 1
  show ?case by simp
next
  case (2 bs targetColor current toCheck visited matches)
  have "unvisitedIds bs toCheck visited \<subseteq> unvisitedIds bs (current # toCheck) visited"
    by (auto simp add: unvisitedIds_def)
  moreover have "finite (unvisitedIds bs (current # toCheck) visited)"
    by (simp add: unvisitedIds_def)
  ultimately have "card (unvisitedIds bs toCheck visited)
      \<le> card (unvisitedIds bs (current # toCheck) visited)"
    by (simp add: card_mono)
  then show ?case by auto
next
  case (3 bs targetColor current toCheck visited matches)
  let ?V = "id_b (bs ! current) # visited"
  let ?new = "rev (neighborsOf bs ?V current) @ toCheck"
  have "set (neighborsOf bs ?V current) \<subseteq> {..<length bs}"
    by (auto simp add: neighborsOf_def)
  then have "unvisitedIds bs ?new ?V \<subseteq> unvisitedIds bs (current # toCheck) visited"
    by (auto simp add: unvisitedIds_def)
  moreover have "id_b (bs ! current) \<in> unvisitedIds bs (current # toCheck) visited"
    using 3(1) by (simp add: unvisitedIds_def)
  moreover have "id_b (bs ! current) \<notin> unvisitedIds bs ?new ?V"
    by (simp add: unvisitedIds_def)
  ultimately have "unvisitedIds bs ?new ?V \<subset> unvisitedIds bs (current # toCheck) visited"
    by blast
  moreover have "finite (unvisitedIds bs (current # toCheck) visited)"
    by (simp add: unvisitedIds_def)
  ultimately have "card (unvisitedIds bs ?new ?V)
      < card (unvisitedIds bs (current # toCheck) visited)"
    by (simp add: psubset_card_mono)
  then show ?case by simp
next
  case (4 bs targetColor current toCheck visited matches)
  let ?V = "id_b (bs ! current) # visited"
  have "unvisitedIds bs toCheck ?V \<subseteq> unvisitedIds bs (current # toCheck) visited"
    by (auto simp add: unvisitedIds_def)
  moreover have "id_b (bs ! current) \<in> unvisitedIds bs (current # toCheck) visited"
    using 4(1) by (simp add: unvisitedIds_def)
  moreover have "id_b (bs ! current) \<notin> unvisitedIds bs toCheck ?V"
    by (simp add: unvisitedIds_def)
  ultimately have "unvisitedIds bs toCheck ?V \<subset> unvisitedIds bs (current # toCheck) visited"
    by blast
  moreover have "finite (unvisitedIds bs (current # toCheck) visited)"
    by (simp add: unvisitedIds_def)
  ultimately have "card (unvisitedIds bs toCheck ?V)
      < card (unvisitedIds bs (current # toCheck) visited)"
    by (simp add: psubset_card_mono)
  then show ?case by simp
qed

declare floodFill.simps [simp del]

text \<open>\<open>b.active = false\<close>, for the bubble at position \<open>i\<close> of the array.\<close>

definition popBubble :: "Bubble list \<Rightarrow> nat \<Rightarrow> Bubble list" where
  "popBubble bs i = bs[i := (bs ! i)\<lparr>active := False\<rparr>]"

text \<open>
  \<open>checkMatches(startBubble)\<close> returns the flag and the new state. The sound and the
  particles of \<open>createExplosion\<close> are left out.
\<close>

definition checkMatches :: "nat \<Rightarrow> Game \<Rightarrow> bool \<times> Game" where
  "checkMatches startBubble s =
     (let targetColor = color (bubbles s ! startBubble);
          matches = floodFill (bubbles s) targetColor [startBubble] [] []
      in if length matches \<ge> 3
         then
           (let basePoints = points targetColor;
                popped = foldl popBubble (bubbles s) matches;
                pts = foldl (\<lambda>p b. p + basePoints) 0 matches;
                multiplier = (if length matches > 3 then 1.5 else 1.0) :: real
            in (True, s\<lparr>bubbles := popped,
                        scoreRef := scoreRef s + \<lfloor>real_of_int pts * multiplier\<rfloor>\<rparr>))
         else (False, s))"

subsection \<open>The connected component of a bubble\<close>

text \<open>
  One step from the bubble at position \<open>i\<close> to an active neighbour at position \<open>j\<close> that has
  colour \<open>c\<close>, and the positions reached from \<open>start\<close> by such steps through bubbles of its
  colour. These two follow the words of the specification; the code is \<open>floodFill\<close>.
\<close>

definition sameColorStep :: "Bubble list \<Rightarrow> BubbleColor \<Rightarrow> (nat \<times> nat) set" where
  "sameColorStep bs c =
     {(i, j). i < length bs \<and> j < length bs \<and> active (bs ! j) \<and> color (bs ! j) = c
        \<and> isNeighbor (bs ! i) (bs ! j)}"

definition component :: "Bubble list \<Rightarrow> nat \<Rightarrow> nat set" where
  "component bs start = (sameColorStep bs (color (bs ! start)))\<^sup>* `` {start}"

text \<open>The invariant of the loop of \<open>checkMatches\<close>, and what holds of its result.\<close>

definition ffInv :: "Bubble list \<Rightarrow> BubbleColor \<Rightarrow> nat list \<Rightarrow> BubbleId list \<Rightarrow> nat list \<Rightarrow> bool" where
  "ffInv bs tc toCheck visited matches \<longleftrightarrow>
     set toCheck \<subseteq> {..<length bs} \<and> set matches \<subseteq> {..<length bs} \<and> distinct matches
   \<and> (\<forall>m \<in> set matches. id_b (bs ! m) \<in> set visited \<and> color (bs ! m) = tc)
   \<and> (\<forall>i < length bs. id_b (bs ! i) \<in> set visited \<longrightarrow> color (bs ! i) = tc \<longrightarrow> i \<in> set matches)
   \<and> (\<forall>m \<in> set matches. \<forall>k < length bs. active (bs ! k) \<longrightarrow> isNeighbor (bs ! m) (bs ! k)
         \<longrightarrow> id_b (bs ! k) \<in> set visited \<or> k \<in> set toCheck)"

definition ffPost :: "Bubble list \<Rightarrow> BubbleColor \<Rightarrow> nat list \<Rightarrow> nat list \<Rightarrow> nat list \<Rightarrow> bool" where
  "ffPost bs tc toCheck matches res \<longleftrightarrow>
     set matches \<subseteq> set res \<and> distinct res \<and> set res \<subseteq> {..<length bs}
   \<and> (\<forall>m \<in> set res. color (bs ! m) = tc)
   \<and> (\<forall>m \<in> set res. \<forall>k < length bs. active (bs ! k) \<longrightarrow> color (bs ! k) = tc
         \<longrightarrow> isNeighbor (bs ! m) (bs ! k) \<longrightarrow> k \<in> set res)
   \<and> set res \<subseteq> (sameColorStep bs tc)\<^sup>* `` (set matches \<union> {i \<in> set toCheck. color (bs ! i) = tc})"

subsection \<open>More example states\<close>

text \<open>
  A bubble at the pixel position of its cell, a state at rest on a canvas 1000 wide and 720
  high, and two fields: a chain of three red bubbles with a blue and a far red one, and
  four red bubbles side by side next to a blue one.
\<close>

definition bubbleAt :: "real \<Rightarrow> BubbleId \<Rightarrow> int \<Rightarrow> int \<Rightarrow> BubbleColor \<Rightarrow> bool \<Rightarrow> Bubble" where
  "bubbleAt width i r c k a =
     \<lparr>id_b = i, row = r, col = c, x_b = x_p (getBubblePos r c width),
      y_b = y_p (getBubblePos r c width), color = k, active = a\<rparr>"

definition restingState :: "Bubble list \<Rightarrow> Game" where
  "restingState bs =
     \<lparr>ballPos = \<lparr>x_p = 500, y_p = 500\<rparr>, ballVel = \<lparr>x_p = 0, y_p = 0\<rparr>,
      anchorPos = \<lparr>x_p = 500, y_p = 500\<rparr>, isPinching = False, isFlying = False,
      flightStartTime = 0, bubbles = bs, scoreRef = 0, selectedColorRef = Red,
      isGameOver = False, canvasWidth = 1000, canvasHeight = 720\<rparr>"

definition chainBubbles :: "Bubble list" where
  "chainBubbles =
     [bubbleAt 1000 (CellId 0 0 1) 0 0 Red True,
      bubbleAt 1000 (CellId 0 1 1) 0 1 Blue True,
      bubbleAt 1000 (CellId 1 0 1) 1 0 Red True,
      bubbleAt 1000 (CellId 2 1 9) 2 1 Red True,
      bubbleAt 1000 (CellId 0 3 1) 0 3 Red True]"

definition fourRedBubbles :: "Bubble list" where
  "fourRedBubbles =
     [bubbleAt 1000 (CellId 0 0 1) 0 0 Red True,
      bubbleAt 1000 (CellId 0 1 1) 0 1 Red True,
      bubbleAt 1000 (CellId 0 2 1) 0 2 Red True,
      bubbleAt 1000 (CellId 0 4 1) 0 4 Blue True,
      bubbleAt 1000 (CellId 0 3 5) 0 3 Red True]"

subsection \<open>Landing the projectile\<close>

text \<open>
  The constants of the landing scan in \<open>onResults\<close>: \<open>gridRows\<close>, the number of columns of
  row \<open>r\<close>, and the cells in the order in which the two nested loops visit them
  (\<open>r\<close> from 0 below \<open>gridRows + 5\<close>, \<open>c\<close> from 0 below \<open>colsInRow\<close>).
\<close>

definition gridRows :: int where
  "gridRows = 8"

definition colsInRow :: "int \<Rightarrow> int" where
  "colsInRow r = (if r mod 2 \<noteq> 0 then GRID_COLS - 1 else GRID_COLS)"

definition scanCells :: "(int \<times> int) list" where
  "scanCells =
     concat (map (\<lambda>r. map (\<lambda>c. (int r, int c)) [0..<nat (colsInRow (int r))])
       [0..<nat (gridRows + 5)])"

text \<open>
  The five \<open>best...\<close> variables of the scan. \<open>bestDist\<close> starts at \<open>Infinity\<close>, which is
  \<open>None\<close> here: every distance is below it.
\<close>

record Best =
  bestDist :: "real option"
  bestRow :: int
  bestCol :: int
  bestX :: real
  bestY :: real

text \<open>\<open>bubbles.current.some(b => b.active && b.row === r && b.col === c)\<close>.\<close>

definition occupied :: "Bubble list \<Rightarrow> int \<Rightarrow> int \<Rightarrow> bool" where
  "occupied bs r c = list_ex (\<lambda>b. active b \<and> row b = r \<and> col b = c) bs"

text \<open>The body of the inner loop for one cell, and the whole scan.\<close>

definition scanCell :: "Game \<Rightarrow> real \<Rightarrow> Best \<Rightarrow> int \<times> int \<Rightarrow> Best" where
  "scanCell s width best cell =
     (let r = fst cell; c = snd cell;
          p = getBubblePos r c width
      in if occupied (bubbles s) r c then best
         else
           (let dist = sqrt ((x_p (ballPos s) - x_p p)\<^sup>2 + (y_p (ballPos s) - y_p p)\<^sup>2)
            in if (case bestDist best of None \<Rightarrow> True | Some d \<Rightarrow> dist < d)
               then \<lparr>bestDist = Some dist, bestRow = r, bestCol = c,
                     bestX = x_p p, bestY = y_p p\<rparr>
               else best))"

definition findLanding :: "Game \<Rightarrow> real \<Rightarrow> Best" where
  "findLanding s width =
     foldl (scanCell s width)
       \<lparr>bestDist = None, bestRow = 0, bestCol = 0, bestX = 0, bestY = 0\<rparr> scanCells"

text \<open>
  The block \<open>if (collisionOccurred) { ... }\<close> of \<open>onResults\<close>, on the state in which the
  collision was found: the scan, the new bubble pushed with the selected colour,
  \<open>checkMatches\<close> on it, and the ball back at the anchor. \<open>now\<close> is \<open>Date.now()\<close>. The sound,
  \<open>updateAvailableColors\<close> and the capture request change none of the fields of the state.
\<close>

definition landProjectile :: "real \<Rightarrow> int \<Rightarrow> Game \<Rightarrow> Game" where
  "landProjectile width now s =
     (let best = findLanding s width;
          newBubble = \<lparr>id_b = CellId (bestRow best) (bestCol best) now,
                       row = bestRow best, col = bestCol best,
                       x_b = bestX best, y_b = bestY best,
                       color = selectedColorRef s, active = True\<rparr>;
          s1 = s\<lparr>isFlying := False, bubbles := bubbles s @ [newBubble]\<rparr>;
          s2 = snd (checkMatches (length (bubbles s)) s1)
      in s2\<lparr>ballPos := anchorPos s2, ballVel := \<lparr>x_p = 0, y_p = 0\<rparr>\<rparr>)"

text \<open>
  The invariant of the specification: no two active bubbles share a cell.
\<close>

definition cellsUnique :: "Bubble list \<Rightarrow> bool" where
  "cellsUnique bs = distinct (map (\<lambda>b. (row b, col b)) (filter active bs))"

text \<open>
  A field in which every cell of the scan holds an active bubble, coloured so that no two
  neighbours have the same colour; the state in which the ball, flying with red selected,
  has just touched it; and the bubble that the landing block then pushes.
\<close>

definition threeColor :: "int \<Rightarrow> int \<Rightarrow> BubbleColor" where
  "threeColor r c =
     (if (2 * c + r mod 2) mod 3 = 0 then Red
      else if (2 * c + r mod 2) mod 3 = 1 then Blue else Green)"

definition fullField :: "Bubble list" where
  "fullField = map (\<lambda>cell. bubbleAt 1000 (CellId (fst cell) (snd cell) 1) (fst cell) (snd cell)
                      (threeColor (fst cell) (snd cell)) True) scanCells"

definition fullState :: Game where
  "fullState = (restingState fullField)\<lparr>ballPos := \<lparr>x_p = 500, y_p = 490\<rparr>,
                  ballVel := \<lparr>x_p = 0, y_p = -10\<rparr>, isFlying := True\<rparr>"

definition strayBubble :: Bubble where
  "strayBubble = \<lparr>id_b = CellId 0 0 2, row = 0, col = 0, x_b = 0, y_b = 0,
                   color = Red, active = True\<rparr>"

subsection \<open>The targeting test\<close>

text \<open>
  In \<open>isPathClear(target)\<close>: the number of steps,
  \<open>Math.ceil(distance / (BUBBLE_RADIUS / 2))\<close>, and the point \<open>(cx, cy)\<close> of step \<open>i\<close> on the
  segment from the anchor to the target.
\<close>

definition pathSteps :: "Bubble \<Rightarrow> Game \<Rightarrow> int" where
  "pathSteps target s =
     (let dx = x_b target - x_p (anchorPos s);
          dy = y_b target - y_p (anchorPos s);
          distance = sqrt (dx * dx + dy * dy)
      in \<lceil>distance / (BUBBLE_RADIUS / 2)\<rceil>)"

definition samplePoint :: "Bubble \<Rightarrow> Game \<Rightarrow> int \<Rightarrow> Point" where
  "samplePoint target s i =
     (let startX = x_p (anchorPos s);
          startY = y_p (anchorPos s);
          dx = x_b target - startX;
          dy = y_b target - startY;
          t = real_of_int i / real_of_int (pathSteps target s)
      in \<lparr>x_p = startX + dx * t, y_p = startY + dy * t\<rparr>)"

text \<open>
  The inner loop \<open>for (const b of bubbles.current)\<close> at one sample point: \<open>False\<close> is the
  \<open>return false\<close> of the source, \<open>True\<close> that the loop ran to its end.
\<close>

fun bubbleLoop :: "Bubble \<Rightarrow> Point \<Rightarrow> Bubble list \<Rightarrow> bool" where
  "bubbleLoop target c [] = True"
| "bubbleLoop target c (b # bs) =
     (if \<not> active b \<or> id_b b = id_b target then bubbleLoop target c bs
      else if (x_p c - x_b b)\<^sup>2 + (y_p c - y_b b)\<^sup>2 < (BUBBLE_RADIUS * 1.8)\<^sup>2 then False
      else bubbleLoop target c bs)"

text \<open>
  The outer loop \<open>for (let i = 1; i < steps - 2; i++)\<close>, from step \<open>i\<close> on, and
  \<open>isPathClear\<close>. The test \<open>if (!anchorPos.current) return false\<close> never fires, the ref
  always holding a point.
\<close>

function sampleLoop :: "Bubble \<Rightarrow> Game \<Rightarrow> int \<Rightarrow> bool" where
  "sampleLoop target s i =
     (if i < pathSteps target s - 2
      then (if bubbleLoop target (samplePoint target s i) (bubbles s)
            then sampleLoop target s (i + 1) else False)
      else True)"
  by pat_completeness auto
termination
  by (relation "measure (\<lambda>(target, s, i). nat (pathSteps target s - 2 - i))") auto

declare sampleLoop.simps [simp del]

definition isPathClear :: "Bubble \<Rightarrow> Game \<Rightarrow> bool" where
  "isPathClear target s = sampleLoop target s 1"

text \<open>
  A red target in row 1 with a blue bubble in row 5 of the same column, straight above the
  anchor of the state at rest.
\<close>

definition blockedTarget :: Bubble where
  "blockedTarget = bubbleAt 1000 (CellId 1 5 1) 1 5 Red True"

definition blocker :: Bubble where
  "blocker = bubbleAt 1000 (CellId 5 5 1) 5 5 Blue True"

text \<open>
  A canvas 1000 wide and 330 high, with the anchor at \<open>(500, 110)\<close>: a red target in row 0,
  to the right of the anchor, and a blue bubble in row 1 next to the line towards it.
\<close>

definition obliqueState :: Game where
  "obliqueState =
     (restingState [bubbleAt 1000 (CellId 0 7 1) 0 7 Red True,
                    bubbleAt 1000 (CellId 1 6 1) 1 6 Blue True])
       \<lparr>ballPos := \<lparr>x_p = 500, y_p = 110\<rparr>, anchorPos := \<lparr>x_p = 500, y_p = 110\<rparr>,
        canvasHeight := 330\<rparr>"

subsection \<open>Aiming and releasing\<close>

text \<open>
  \<open>Math.atan2(y, x)\<close>, the angle of the point \<open>(x, y)\<close> in \<open>(-pi, pi]\<close>.
\<close>

definition atan2 :: "real \<Rightarrow> real \<Rightarrow> real" where
  "atan2 y x =
     (if 0 < x then arctan (y / x)
      else if x < 0 then (if 0 \<le> y then arctan (y / x) + pi else arctan (y / x) - pi)
      else if 0 < y then pi / 2
      else if y < 0 then - pi / 2
      else 0)"

text \<open>
  The start of \<open>onResults\<close>: when the size of the container differs from that of the
  canvas, the canvas takes it and the anchor moves; the ball follows only when it is
  neither flying nor pinched.
\<close>

definition resize :: "real \<Rightarrow> real \<Rightarrow> Game \<Rightarrow> Game" where
  "resize clientWidth clientHeight s =
     (if canvasWidth s \<noteq> clientWidth \<or> canvasHeight s \<noteq> clientHeight
      then
        (let s1 = s\<lparr>canvasWidth := clientWidth, canvasHeight := clientHeight\<rparr>;
             s2 = s1\<lparr>anchorPos := \<lparr>x_p = canvasWidth s1 / 2,
                                     y_p = canvasHeight s1 - SLINGSHOT_BOTTOM_OFFSET\<rparr>\<rparr>
         in if \<not> isFlying s2 \<and> \<not> isPinching s2 then s2\<lparr>ballPos := anchorPos s2\<rparr> else s2)
      else s)"

text \<open>
  The three branches of the input handling of \<open>onResults\<close>: the hand pinches
  (\<open>aim\<close>, which grabs the ball within 100 units and clamps it radially to
  \<open>MAX_DRAG_DIST\<close>), the pinch ends (\<open>release\<close>, with \<open>now\<close> for \<open>performance.now()\<close>), and the
  free ball eases back to the anchor (\<open>springBack\<close>).
\<close>

definition aim :: "Point \<Rightarrow> Game \<Rightarrow> Game" where
  "aim handPos s =
     (let distToBall = sqrt ((x_p handPos - x_p (ballPos s))\<^sup>2 + (y_p handPos - y_p (ballPos s))\<^sup>2);
          s1 = (if \<not> isPinching s \<and> distToBall < 100 then s\<lparr>isPinching := True\<rparr> else s)
      in if isPinching s1
         then
           (let s2 = s1\<lparr>ballPos := \<lparr>x_p = x_p handPos, y_p = y_p handPos\<rparr>\<rparr>;
                dragDx = x_p (ballPos s2) - x_p (anchorPos s2);
                dragDy = y_p (ballPos s2) - y_p (anchorPos s2);
                dragDist = sqrt (dragDx * dragDx + dragDy * dragDy)
            in if dragDist > MAX_DRAG_DIST
               then
                 (let angle = atan2 dragDy dragDx
                  in s2\<lparr>ballPos := \<lparr>x_p = x_p (anchorPos s2) + cos angle * MAX_DRAG_DIST,
                                      y_p = y_p (anchorPos s2) + sin angle * MAX_DRAG_DIST\<rparr>\<rparr>)
               else s2)
         else s1)"

definition release :: "real \<Rightarrow> Game \<Rightarrow> Game" where
  "release now s =
     (let s1 = s\<lparr>isPinching := False\<rparr>;
          dx = x_p (anchorPos s1) - x_p (ballPos s1);
          dy = y_p (anchorPos s1) - y_p (ballPos s1);
          stretchDist = sqrt (dx * dx + dy * dy)
      in if stretchDist > 30
         then
           (let powerRatio = min (stretchDist / MAX_DRAG_DIST) 1.0;
                velocityMultiplier =
                  MIN_FORCE_MULT + (MAX_FORCE_MULT - MIN_FORCE_MULT) * (powerRatio * powerRatio)
            in s1\<lparr>isFlying := True, flightStartTime := now,
                   ballVel := \<lparr>x_p = dx * velocityMultiplier, y_p = dy * velocityMultiplier\<rparr>\<rparr>)
         else s1\<lparr>ballPos := anchorPos s1\<rparr>)"

definition springBack :: "Game \<Rightarrow> Game" where
  "springBack s =
     (let dx = x_p (anchorPos s) - x_p (ballPos s);
          dy = y_p (anchorPos s) - y_p (ballPos s)
      in s\<lparr>ballPos := \<lparr>x_p = x_p (ballPos s) + dx * 0.15, y_p = y_p (ballPos s) + dy * 0.15\<rparr>\<rparr>)"

text \<open>
  The \<open>if\<close> / \<open>else if\<close> chain that selects the branch. \<open>handPos\<close> is \<open>None\<close> when no hand is
  detected, \<open>pinchDist\<close> the distance of the finger tips, \<open>isMenuOpen\<close> the state of the menu
  (\<open>canInteract = !isMenuOpen && !isGameOver\<close>).
\<close>

definition handleInput :: "bool \<Rightarrow> Point option \<Rightarrow> real \<Rightarrow> real \<Rightarrow> Game \<Rightarrow> Game" where
  "handleInput isMenuOpen handPos pinchDist now s =
     (let canInteract = (\<not> isMenuOpen \<and> \<not> isGameOver s)
      in if canInteract \<and> handPos \<noteq> None \<and> pinchDist < PINCH_THRESHOLD \<and> \<not> isFlying s
         then (case handPos of Some p \<Rightarrow> aim p s | None \<Rightarrow> s)
         else if canInteract \<and> isPinching s \<and> (handPos = None \<or> pinchDist \<ge> PINCH_THRESHOLD)
         then release now s
         else if \<not> isFlying s \<and> \<not> isPinching s then springBack s
         else s)"

text \<open>
  The values of \<open>stretchDist\<close> and \<open>velocityMultiplier\<close> in the release branch, as functions
  of the state and of the stretch, and \<open>currentSpeed\<close> of the physics block.
\<close>

definition stretchDist :: "Game \<Rightarrow> real" where
  "stretchDist s =
     sqrt ((x_p (anchorPos s) - x_p (ballPos s)) * (x_p (anchorPos s) - x_p (ballPos s))
         + (y_p (anchorPos s) - y_p (ballPos s)) * (y_p (anchorPos s) - y_p (ballPos s)))"

definition velocityMultiplier :: "real \<Rightarrow> real" where
  "velocityMultiplier d =
     MIN_FORCE_MULT + (MAX_FORCE_MULT - MIN_FORCE_MULT) * (min (d / MAX_DRAG_DIST) 1)\<^sup>2"

definition currentSpeed :: "Game \<Rightarrow> real" where
  "currentSpeed s = sqrt ((x_p (ballVel s))\<^sup>2 + (y_p (ballVel s))\<^sup>2)"

text \<open>
  While the ball is pinched it is within \<open>MAX_DRAG_DIST\<close> of the anchor, up to an allowance
  of \<open>10^-6\<close>: the numbers of the code are binary64, and the clamp of the aiming branch and
  the products of the release are exact only up to a few units in the last place (at a
  full draw the code computes the multiplier 0.45000000000000007 and the speed
  81.00000000000001). Bounds on computed values are therefore stated with this allowance.
\<close>

definition drawClamped :: "Game \<Rightarrow> bool" where
  "drawClamped s = (if isPinching s then stretchDist s \<le> MAX_DRAG_DIST + 1 / 1000000 else True)"

text \<open>
  A state in which the ball is pinched \<open>d\<close> units below the anchor; the state after one
  frame in which the hand pinches 90 units below the resting ball; and the state after a
  second frame in which the canvas has grown to a height of 1720 and the hand is gone.
  In the stage without ceiling drops nothing runs between \<open>resize\<close> and the input handling.
\<close>

definition aimingState :: "real \<Rightarrow> Game" where
  "aimingState d = (restingState [])\<lparr>isPinching := True, ballPos := \<lparr>x_p = 500, y_p = 500 + d\<rparr>\<rparr>"

definition pinchedState :: Game where
  "pinchedState =
     handleInput False (Some \<lparr>x_p = 500, y_p = 590\<rparr>) 0.01 0 (resize 1000 720 (restingState []))"

definition resizedLaunchState :: Game where
  "resizedLaunchState = handleInput False None 1 16 (resize 1000 1720 pinchedState)"

section \<open>Properties\<close>

subsection \<open>Adjacency\<close>

text \<open>
  Claim C6. The adjacency predicate is symmetric: for all bubbles \<open>a\<close> and \<open>b\<close>, whatever
  their rows and columns, \<open>isNeighbor a b\<close> and \<open>isNeighbor b a\<close> agree, each evaluated with
  the parity of its own first argument's row.
\<close>

theorem isNeighbor_symmetric: "isNeighbor a b = isNeighbor b a"
proof -
  have par: "row b = row a + 1 \<or> row b = row a - 1 \<Longrightarrow> (row b mod 2 \<noteq> 0) = (row a mod 2 = 0)"
    by presburger
  show ?thesis
  proof (cases "\<bar>row b - row a\<bar> > 1")
    case True
    then show ?thesis by (simp add: isNeighbor_def Let_def abs_minus_commute)
  next
    case far: False
    show ?thesis
    proof (cases "row b = row a")
      case True
      then show ?thesis by (simp add: isNeighbor_def Let_def abs_minus_commute)
    next
      case False
      with far have adj: "row b = row a + 1 \<or> row b = row a - 1" by arith
      from par [OF adj] adj False show ?thesis
        by (auto simp add: isNeighbor_def Let_def)
    qed
  qed
qed

subsection \<open>The ceiling drop\<close>

lemma length_newRowBubbles: "length (newRowBubbles width now pick) = 12"
  by (simp add: newRowBubbles_def GRID_COLS_def)

lemma nth_newRowBubbles:
  "c < 12 \<Longrightarrow> newRowBubbles width now pick ! c = newRowBubble width now pick (int c)"
  by (simp add: newRowBubbles_def GRID_COLS_def)

lemma bubbles_dropCeiling:
  "bubbles (dropCeiling width now pick s) =
     newRowBubbles width now pick @ map (shiftDown width) (bubbles s)"
  by (simp add: dropCeiling_def Let_def)

lemma y_getBubblePos_0: "y_p (getBubblePos 0 c width) = 22"
  by (simp add: getBubblePos_def Let_def BUBBLE_RADIUS_def)

text \<open>
  Claim C8. After \<open>dropCeiling\<close> the array holds twelve new bubbles followed by the old
  ones. Every old bubble, active or not, has its row increased by one, its column,
  identity, colour and flag unchanged, and its pixel position equal to \<open>getBubblePos\<close> of
  the new cell. The twelve new bubbles are active, sit in row 0, the \<open>c\<close>-th in column
  \<open>c\<close> at the pixel position of that cell: one for each of the \<open>GRID_COLS\<close> columns of an
  even row.
\<close>

theorem dropCeiling_shifts_and_fills:
  "length (bubbles (dropCeiling width now pick s)) = nat GRID_COLS + length (bubbles s)
    \<and> nat GRID_COLS = 12
    \<and> (\<forall>i < length (bubbles s).
          row (bubbles (dropCeiling width now pick s) ! (nat GRID_COLS + i))
            = row (bubbles s ! i) + 1
        \<and> col (bubbles (dropCeiling width now pick s) ! (nat GRID_COLS + i))
            = col (bubbles s ! i)
        \<and> id_b (bubbles (dropCeiling width now pick s) ! (nat GRID_COLS + i))
            = id_b (bubbles s ! i)
        \<and> color (bubbles (dropCeiling width now pick s) ! (nat GRID_COLS + i))
            = color (bubbles s ! i)
        \<and> active (bubbles (dropCeiling width now pick s) ! (nat GRID_COLS + i))
            = active (bubbles s ! i)
        \<and> x_b (bubbles (dropCeiling width now pick s) ! (nat GRID_COLS + i))
            = x_p (getBubblePos (row (bubbles s ! i) + 1) (col (bubbles s ! i)) width)
        \<and> y_b (bubbles (dropCeiling width now pick s) ! (nat GRID_COLS + i))
            = y_p (getBubblePos (row (bubbles s ! i) + 1) (col (bubbles s ! i)) width))
    \<and> (\<forall>c < nat GRID_COLS.
          row (bubbles (dropCeiling width now pick s) ! c) = 0
        \<and> col (bubbles (dropCeiling width now pick s) ! c) = int c
        \<and> active (bubbles (dropCeiling width now pick s) ! c)
        \<and> x_b (bubbles (dropCeiling width now pick s) ! c) = x_p (getBubblePos 0 (int c) width)
        \<and> y_b (bubbles (dropCeiling width now pick s) ! c) = y_p (getBubblePos 0 (int c) width))"
proof -
  have twelve: "nat GRID_COLS = 12"
    by (simp add: GRID_COLS_def)
  have len: "length (bubbles (dropCeiling width now pick s)) = nat GRID_COLS + length (bubbles s)"
    by (simp add: bubbles_dropCeiling length_newRowBubbles twelve)
  have old: "bubbles (dropCeiling width now pick s) ! (12 + i)
      = shiftDown width (bubbles s ! i)"
    if "i < length (bubbles s)" for i
    using that
    by (simp add: bubbles_dropCeiling nth_append length_newRowBubbles)
  have new: "bubbles (dropCeiling width now pick s) ! c = newRowBubble width now pick (int c)"
    if "c < 12" for c
    using that
    by (simp add: bubbles_dropCeiling nth_append length_newRowBubbles nth_newRowBubbles)
  show ?thesis
    using len
    by (simp add: twelve old new shiftDown_def newRowBubble_def Let_def)
qed

theorem dropCeiling_shifts_and_fills_witness:
  "row (bubbles (dropCeiling 1000 7 (\<lambda>c. Blue)
      \<lparr>ballPos = \<lparr>x_p = 500, y_p = 500\<rparr>, ballVel = \<lparr>x_p = 0, y_p = 0\<rparr>,
       anchorPos = \<lparr>x_p = 500, y_p = 500\<rparr>, isPinching = False, isFlying = False,
       flightStartTime = 0,
       bubbles = [\<lparr>id_b = CellId 2 3 1, row = 2, col = 3, x_b = 0, y_b = 0,
                   color = Red, active = False\<rparr>],
       scoreRef = 0, selectedColorRef = Red, isGameOver = False,
       canvasWidth = 1000, canvasHeight = 720\<rparr>) ! 12) = 3
   \<and> col (bubbles (dropCeiling 1000 7 (\<lambda>c. Blue)
      \<lparr>ballPos = \<lparr>x_p = 500, y_p = 500\<rparr>, ballVel = \<lparr>x_p = 0, y_p = 0\<rparr>,
       anchorPos = \<lparr>x_p = 500, y_p = 500\<rparr>, isPinching = False, isFlying = False,
       flightStartTime = 0,
       bubbles = [\<lparr>id_b = CellId 2 3 1, row = 2, col = 3, x_b = 0, y_b = 0,
                   color = Red, active = False\<rparr>],
       scoreRef = 0, selectedColorRef = Red, isGameOver = False,
       canvasWidth = 1000, canvasHeight = 720\<rparr>) ! 11) = 11"
  using dropCeiling_shifts_and_fills [of 1000 7 "\<lambda>c. Blue"
      "\<lparr>ballPos = \<lparr>x_p = 500, y_p = 500\<rparr>, ballVel = \<lparr>x_p = 0, y_p = 0\<rparr>,
       anchorPos = \<lparr>x_p = 500, y_p = 500\<rparr>, isPinching = False, isFlying = False,
       flightStartTime = 0,
       bubbles = [\<lparr>id_b = CellId 2 3 1, row = 2, col = 3, x_b = 0, y_b = 0,
                   color = Red, active = False\<rparr>],
       scoreRef = 0, selectedColorRef = Red, isGameOver = False,
       canvasWidth = 1000, canvasHeight = 720\<rparr>"]
  by (simp add: GRID_COLS_def)

lemma foldl_max_lower: "m \<le> foldl (\<lambda>mx b. max mx (y_b b)) m bs"
proof (induction bs arbitrary: m)
  case Nil
  show ?case by simp
next
  case (Cons b bs)
  have "m \<le> max m (y_b b)" by simp
  also have "\<dots> \<le> foldl (\<lambda>mx b. max mx (y_b b)) (max m (y_b b)) bs" by (rule Cons.IH)
  finally show ?case by simp
qed

lemma foldl_max_member: "b \<in> set bs \<Longrightarrow> y_b b \<le> foldl (\<lambda>mx b. max mx (y_b b)) m bs"
proof (induction bs arbitrary: m)
  case Nil
  then show ?case by simp
next
  case (Cons a bs)
  show ?case
  proof (cases "b = a")
    case True
    have "y_b b \<le> max m (y_b a)" using True by simp
    also have "\<dots> \<le> foldl (\<lambda>mx b. max mx (y_b b)) (max m (y_b a)) bs" by (rule foldl_max_lower)
    finally show ?thesis by simp
  next
    case False
    with Cons.prems have "b \<in> set bs" by simp
    from Cons.IH [OF this] show ?thesis by simp
  qed
qed

lemma lowestBubble_member: "b \<in> set bs \<Longrightarrow> y_b b \<le> lowestBubble bs"
  unfolding lowestBubble_def by (rule foldl_max_member)

lemma sqrt3_lower: "5 / 3 < sqrt 3"
  by (rule real_less_rsqrt) (simp add: power2_eq_square)

lemma y_newRowBubbles: "b \<in> set (newRowBubbles width now pick) \<Longrightarrow> y_b b = 22 \<and> active b"
  by (auto simp add: newRowBubbles_def newRowBubble_def Let_def y_getBubblePos_0)

text \<open>
  Claim C1. Game over is to be signalled exactly when an active bubble lies below the
  danger line \<open>anchor.y - 150\<close>. The code takes the maximum over every bubble of the array,
  popped ones included: in \<open>poppedLowState\<close> the popped bubble moves to row 9, below the line
  at \<open>y = 350\<close>, and \<open>dropCeiling\<close> sets the flag although the only active bubbles, the twelve of
  the new row, are at \<open>y = 22\<close>.
\<close>

theorem dropCeiling_popped_bubble_ends_game:
  "isGameOver (dropCeiling 1000 7 (\<lambda>c. Blue) poppedLowState)
   \<and> \<not> isGameOver poppedLowState
   \<and> filter (\<lambda>b. active b \<and> y_b b > y_p (anchorPos poppedLowState) - 150)
        (bubbles (dropCeiling 1000 7 (\<lambda>c. Blue) poppedLowState)) = []
   \<and> length (filter active (bubbles (dropCeiling 1000 7 (\<lambda>c. Blue) poppedLowState))) = 12"
proof -
  let ?b = "shiftDown 1000 \<lparr>id_b = CellId 8 0 1, row = 8, col = 0, x_b = 258,
      y_b = 22 + 8 * ROW_HEIGHT, color = Red, active = False\<rparr>"
  let ?bs = "newRowBubbles 1000 7 (\<lambda>c. Blue) @ [?b]"
  have bs: "bubbles (dropCeiling 1000 7 (\<lambda>c. Blue) poppedLowState) = ?bs"
    by (simp add: bubbles_dropCeiling poppedLowState_def)
  have yb: "y_b ?b = 22 + 198 * sqrt 3"
    by (simp add: shiftDown_def Let_def getBubblePos_def BUBBLE_RADIUS_def ROW_HEIGHT_def)
  have "350 < y_b ?b" using sqrt3_lower by (simp add: yb)
  also have "y_b ?b \<le> lowestBubble ?bs" by (rule lowestBubble_member) simp
  finally have over: "isGameOver (dropCeiling 1000 7 (\<lambda>c. Blue) poppedLowState)"
    by (simp add: dropCeiling_def Let_def poppedLowState_def)
  have inact: "\<not> active ?b" by (simp add: shiftDown_def Let_def)
  have none: "filter (\<lambda>b. active b \<and> y_b b > y_p (anchorPos poppedLowState) - 150) ?bs = []"
    using inact by (auto simp add: filter_empty_conv poppedLowState_def dest: y_newRowBubbles)
  have twelve: "length (filter active ?bs) = 12"
  proof -
    have "filter active (newRowBubbles 1000 7 (\<lambda>c. Blue)) = newRowBubbles 1000 7 (\<lambda>c. Blue)"
      by (rule filter_True) (simp add: y_newRowBubbles)
    then show ?thesis using inact by (simp add: length_newRowBubbles)
  qed
  show ?thesis using over none twelve by (simp add: bs) (simp add: poppedLowState_def)
qed

subsection \<open>The match engine\<close>

lemma set_neighborsOf: "set (neighborsOf bs visited current) \<subseteq> {..<length bs}"
  by (auto simp add: neighborsOf_def)

lemma distinct_ids_index:
  assumes "distinct (map id_b bs)" "i < length bs" "j < length bs" "id_b (bs ! i) = id_b (bs ! j)"
  shows "i = j"
  using assms by (metis length_map nth_eq_iff_index_eq nth_map)

lemma ffInvD:
  assumes "ffInv bs tc toCheck visited matches"
  shows "set toCheck \<subseteq> {..<length bs}"
    and "set matches \<subseteq> {..<length bs}"
    and "distinct matches"
    and "\<forall>m \<in> set matches. id_b (bs ! m) \<in> set visited \<and> color (bs ! m) = tc"
    and "\<forall>i < length bs. id_b (bs ! i) \<in> set visited \<longrightarrow> color (bs ! i) = tc \<longrightarrow> i \<in> set matches"
    and "\<forall>m \<in> set matches. \<forall>k < length bs. active (bs ! k) \<longrightarrow> isNeighbor (bs ! m) (bs ! k)
         \<longrightarrow> id_b (bs ! k) \<in> set visited \<or> k \<in> set toCheck"
  using assms unfolding ffInv_def by blast+

lemma ffInvI:
  assumes "set toCheck \<subseteq> {..<length bs}"
    and "set matches \<subseteq> {..<length bs}"
    and "distinct matches"
    and "\<forall>m \<in> set matches. id_b (bs ! m) \<in> set visited \<and> color (bs ! m) = tc"
    and "\<forall>i < length bs. id_b (bs ! i) \<in> set visited \<longrightarrow> color (bs ! i) = tc \<longrightarrow> i \<in> set matches"
    and "\<forall>m \<in> set matches. \<forall>k < length bs. active (bs ! k) \<longrightarrow> isNeighbor (bs ! m) (bs ! k)
         \<longrightarrow> id_b (bs ! k) \<in> set visited \<or> k \<in> set toCheck"
  shows "ffInv bs tc toCheck visited matches"
  unfolding ffInv_def using assms by blast

lemma ffPostD:
  assumes "ffPost bs tc toCheck matches res"
  shows "set matches \<subseteq> set res"
    and "distinct res"
    and "set res \<subseteq> {..<length bs}"
    and "\<forall>m \<in> set res. color (bs ! m) = tc"
    and "\<forall>m \<in> set res. \<forall>k < length bs. active (bs ! k) \<longrightarrow> color (bs ! k) = tc
         \<longrightarrow> isNeighbor (bs ! m) (bs ! k) \<longrightarrow> k \<in> set res"
    and "set res \<subseteq> (sameColorStep bs tc)\<^sup>* `` (set matches \<union> {i \<in> set toCheck. color (bs ! i) = tc})"
  using assms unfolding ffPost_def by blast+

lemma ffPostI:
  assumes "set matches \<subseteq> set res"
    and "distinct res"
    and "set res \<subseteq> {..<length bs}"
    and "\<forall>m \<in> set res. color (bs ! m) = tc"
    and "\<forall>m \<in> set res. \<forall>k < length bs. active (bs ! k) \<longrightarrow> color (bs ! k) = tc
         \<longrightarrow> isNeighbor (bs ! m) (bs ! k) \<longrightarrow> k \<in> set res"
    and "set res \<subseteq> (sameColorStep bs tc)\<^sup>* `` (set matches \<union> {i \<in> set toCheck. color (bs ! i) = tc})"
  shows "ffPost bs tc toCheck matches res"
  unfolding ffPost_def using assms by blast

lemma ffInv_done:
  assumes "ffInv bs tc [] visited matches"
  shows "ffPost bs tc [] matches matches"
proof (rule ffPostI)
  note old = ffInvD [OF assms]
  show "set matches \<subseteq> set matches" by simp
  show "distinct matches" by (rule old(3))
  show "set matches \<subseteq> {..<length bs}" by (rule old(2))
  show "\<forall>m \<in> set matches. color (bs ! m) = tc" using old(4) by blast
  show "\<forall>m \<in> set matches. \<forall>k < length bs. active (bs ! k) \<longrightarrow> color (bs ! k) = tc
         \<longrightarrow> isNeighbor (bs ! m) (bs ! k) \<longrightarrow> k \<in> set matches"
  proof (intro ballI allI impI)
    fix m k
    assume m: "m \<in> set matches" and k: "k < length bs" "active (bs ! k)" "color (bs ! k) = tc"
      "isNeighbor (bs ! m) (bs ! k)"
    from old(6) m k(1,2,4) have "id_b (bs ! k) \<in> set visited \<or> k \<in> set []" by blast
    then have "id_b (bs ! k) \<in> set visited" by simp
    with old(5) k(1,3) show "k \<in> set matches" by blast
  qed
  show "set matches \<subseteq> (sameColorStep bs tc)\<^sup>* `` (set matches \<union> {i \<in> set []. color (bs ! i) = tc})"
    by blast
qed

lemma ffInv_skip:
  assumes "ffInv bs tc (current # toCheck) visited matches" "id_b (bs ! current) \<in> set visited"
  shows "ffInv bs tc toCheck visited matches"
proof (rule ffInvI)
  note old = ffInvD [OF assms(1)]
  show "set toCheck \<subseteq> {..<length bs}" using old(1) by simp
  show "set matches \<subseteq> {..<length bs}" by (rule old(2))
  show "distinct matches" by (rule old(3))
  show "\<forall>m \<in> set matches. id_b (bs ! m) \<in> set visited \<and> color (bs ! m) = tc" by (rule old(4))
  show "\<forall>i < length bs. id_b (bs ! i) \<in> set visited \<longrightarrow> color (bs ! i) = tc \<longrightarrow> i \<in> set matches"
    by (rule old(5))
  show "\<forall>m \<in> set matches. \<forall>k < length bs. active (bs ! k) \<longrightarrow> isNeighbor (bs ! m) (bs ! k)
         \<longrightarrow> id_b (bs ! k) \<in> set visited \<or> k \<in> set toCheck"
  proof (intro ballI allI impI)
    fix m k
    assume "m \<in> set matches" "k < length bs" "active (bs ! k)" "isNeighbor (bs ! m) (bs ! k)"
    with old(6) have "id_b (bs ! k) \<in> set visited \<or> k \<in> set (current # toCheck)" by blast
    with assms(2) show "id_b (bs ! k) \<in> set visited \<or> k \<in> set toCheck" by auto
  qed
qed

lemma ffInv_other:
  assumes "ffInv bs tc (current # toCheck) visited matches" "color (bs ! current) \<noteq> tc"
    "distinct (map id_b bs)"
  shows "ffInv bs tc toCheck (id_b (bs ! current) # visited) matches"
proof (rule ffInvI)
  note old = ffInvD [OF assms(1)]
  have cur: "current < length bs" using old(1) by simp
  have same: "i = current" if "i < length bs" "id_b (bs ! i) = id_b (bs ! current)" for i
    using distinct_ids_index [OF assms(3) that(1) cur that(2)] .
  show "set toCheck \<subseteq> {..<length bs}" using old(1) by simp
  show "set matches \<subseteq> {..<length bs}" by (rule old(2))
  show "distinct matches" by (rule old(3))
  show "\<forall>m \<in> set matches. id_b (bs ! m) \<in> set (id_b (bs ! current) # visited) \<and> color (bs ! m) = tc"
    using old(4) by simp
  show "\<forall>i < length bs. id_b (bs ! i) \<in> set (id_b (bs ! current) # visited)
      \<longrightarrow> color (bs ! i) = tc \<longrightarrow> i \<in> set matches"
  proof (intro allI impI)
    fix i
    assume i: "i < length bs" "id_b (bs ! i) \<in> set (id_b (bs ! current) # visited)"
      "color (bs ! i) = tc"
    have "id_b (bs ! i) \<noteq> id_b (bs ! current)"
      using same [OF i(1)] i(3) assms(2) by blast
    with i(2) have "id_b (bs ! i) \<in> set visited" by simp
    with old(5) i(1,3) show "i \<in> set matches" by blast
  qed
  show "\<forall>m \<in> set matches. \<forall>k < length bs. active (bs ! k) \<longrightarrow> isNeighbor (bs ! m) (bs ! k)
      \<longrightarrow> id_b (bs ! k) \<in> set (id_b (bs ! current) # visited) \<or> k \<in> set toCheck"
  proof (intro ballI allI impI)
    fix m k
    assume "m \<in> set matches" "k < length bs" "active (bs ! k)" "isNeighbor (bs ! m) (bs ! k)"
    with old(6) have "id_b (bs ! k) \<in> set visited \<or> k \<in> set (current # toCheck)" by blast
    then show "id_b (bs ! k) \<in> set (id_b (bs ! current) # visited) \<or> k \<in> set toCheck" by auto
  qed
qed

lemma ffInv_match:
  assumes "ffInv bs tc (current # toCheck) visited matches" "id_b (bs ! current) \<notin> set visited"
    "color (bs ! current) = tc" "distinct (map id_b bs)"
  shows "ffInv bs tc (rev (neighborsOf bs (id_b (bs ! current) # visited) current) @ toCheck)
           (id_b (bs ! current) # visited) (matches @ [current])"
proof (rule ffInvI)
  let ?V = "id_b (bs ! current) # visited"
  let ?N = "neighborsOf bs ?V current"
  note old = ffInvD [OF assms(1)]
  have cur: "current < length bs" using old(1) by simp
  have same: "i = current" if "i < length bs" "id_b (bs ! i) = id_b (bs ! current)" for i
    using distinct_ids_index [OF assms(4) that(1) cur that(2)] .
  have fresh: "current \<notin> set matches" using old(4) assms(2) by blast
  have nb: "k \<in> set ?N" if "k < length bs" "active (bs ! k)" "isNeighbor (bs ! current) (bs ! k)"
     "id_b (bs ! k) \<notin> set ?V" for k
    using that by (simp add: neighborsOf_def)
  have "set ?N \<subseteq> {..<length bs}" by (rule set_neighborsOf)
  moreover have "set toCheck \<subseteq> {..<length bs}" using old(1) by simp
  ultimately show "set (rev ?N @ toCheck) \<subseteq> {..<length bs}" by simp
  show "set (matches @ [current]) \<subseteq> {..<length bs}" using old(2) cur by simp
  show "distinct (matches @ [current])" using old(3) fresh by simp
  show "\<forall>m \<in> set (matches @ [current]). id_b (bs ! m) \<in> set ?V \<and> color (bs ! m) = tc"
    using old(4) assms(3) by simp
  show "\<forall>i < length bs. id_b (bs ! i) \<in> set ?V \<longrightarrow> color (bs ! i) = tc
      \<longrightarrow> i \<in> set (matches @ [current])"
  proof (intro allI impI)
    fix i
    assume i: "i < length bs" "id_b (bs ! i) \<in> set ?V" "color (bs ! i) = tc"
    show "i \<in> set (matches @ [current])"
    proof (cases "id_b (bs ! i) = id_b (bs ! current)")
      case True
      from same [OF i(1) True] show ?thesis by simp
    next
      case False
      with i(2) have "id_b (bs ! i) \<in> set visited" by simp
      with old(5) i(1,3) have "i \<in> set matches" by blast
      then show ?thesis by simp
    qed
  qed
  show "\<forall>m \<in> set (matches @ [current]). \<forall>k < length bs. active (bs ! k)
      \<longrightarrow> isNeighbor (bs ! m) (bs ! k)
      \<longrightarrow> id_b (bs ! k) \<in> set ?V \<or> k \<in> set (rev ?N @ toCheck)"
  proof (intro ballI allI impI)
    fix m k
    assume m: "m \<in> set (matches @ [current])" and k: "k < length bs" "active (bs ! k)"
      "isNeighbor (bs ! m) (bs ! k)"
    show "id_b (bs ! k) \<in> set ?V \<or> k \<in> set (rev ?N @ toCheck)"
    proof (cases "m = current")
      case True
      show ?thesis
      proof (cases "id_b (bs ! k) \<in> set ?V")
        case False
        from nb [OF k(1,2) _ False] k(3) True have "k \<in> set ?N" by simp
        then show ?thesis by simp
      qed simp
    next
      case False
      with m have "m \<in> set matches" by simp
      with old(6) k have "id_b (bs ! k) \<in> set visited \<or> k \<in> set (current # toCheck)" by blast
      then show ?thesis by auto
    qed
  qed
qed

lemma ffPost_skip:
  assumes "ffPost bs tc toCheck matches res"
  shows "ffPost bs tc (current # toCheck) matches res"
proof (rule ffPostI)
  note old = ffPostD [OF assms]
  show "set matches \<subseteq> set res" by (rule old(1))
  show "distinct res" by (rule old(2))
  show "set res \<subseteq> {..<length bs}" by (rule old(3))
  show "\<forall>m \<in> set res. color (bs ! m) = tc" by (rule old(4))
  show "\<forall>m \<in> set res. \<forall>k < length bs. active (bs ! k) \<longrightarrow> color (bs ! k) = tc
         \<longrightarrow> isNeighbor (bs ! m) (bs ! k) \<longrightarrow> k \<in> set res" by (rule old(5))
  have "(sameColorStep bs tc)\<^sup>* `` (set matches \<union> {i \<in> set toCheck. color (bs ! i) = tc})
      \<subseteq> (sameColorStep bs tc)\<^sup>* `` (set matches \<union> {i \<in> set (current # toCheck). color (bs ! i) = tc})"
    by (rule Image_mono) auto
  with old(6)
  show "set res \<subseteq> (sameColorStep bs tc)\<^sup>* `` (set matches \<union> {i \<in> set (current # toCheck). color (bs ! i) = tc})"
    by (rule subset_trans)
qed

lemma ffPost_match:
  assumes "ffPost bs tc (rev (neighborsOf bs V current) @ toCheck) (matches @ [current]) res"
    "color (bs ! current) = tc" "current < length bs"
  shows "ffPost bs tc (current # toCheck) matches res"
proof (rule ffPostI)
  let ?E = "sameColorStep bs tc"
  let ?N = "neighborsOf bs V current"
  note old = ffPostD [OF assms(1)]
  show "set matches \<subseteq> set res" using old(1) by simp
  show "distinct res" by (rule old(2))
  show "set res \<subseteq> {..<length bs}" by (rule old(3))
  show "\<forall>m \<in> set res. color (bs ! m) = tc" by (rule old(4))
  show "\<forall>m \<in> set res. \<forall>k < length bs. active (bs ! k) \<longrightarrow> color (bs ! k) = tc
         \<longrightarrow> isNeighbor (bs ! m) (bs ! k) \<longrightarrow> k \<in> set res" by (rule old(5))
  have step: "(current, k) \<in> ?E" if "k \<in> set ?N" "color (bs ! k) = tc" for k
    using that assms(3) by (simp add: neighborsOf_def sameColorStep_def)
  have "?E\<^sup>* `` (set (matches @ [current]) \<union> {i \<in> set (rev ?N @ toCheck). color (bs ! i) = tc})
      \<subseteq> ?E\<^sup>* `` (set matches \<union> {i \<in> set (current # toCheck). color (bs ! i) = tc})"
  proof
    fix j
    assume "j \<in> ?E\<^sup>* `` (set (matches @ [current]) \<union> {i \<in> set (rev ?N @ toCheck). color (bs ! i) = tc})"
    then obtain i where i: "(i, j) \<in> ?E\<^sup>*"
      "i \<in> set (matches @ [current]) \<union> {i \<in> set (rev ?N @ toCheck). color (bs ! i) = tc}"
      by (rule ImageE)
    from i(2) consider "i \<in> set matches" | "i = current" | "i \<in> set ?N" "color (bs ! i) = tc"
      | "i \<in> set toCheck" "color (bs ! i) = tc" by auto
    then have "\<exists>i0 \<in> set matches \<union> {i \<in> set (current # toCheck). color (bs ! i) = tc}. (i0, j) \<in> ?E\<^sup>*"
    proof cases
      case 1
      with i(1) show ?thesis by blast
    next
      case 2
      with i(1) assms(2) show ?thesis by (intro bexI [of _ current]) auto
    next
      case 3
      from step [OF 3] i(1) have "(current, j) \<in> ?E\<^sup>*" by (rule converse_rtrancl_into_rtrancl)
      with assms(2) show ?thesis by (intro bexI [of _ current]) auto
    next
      case 4
      with i(1) show ?thesis by auto
    qed
    then show "j \<in> ?E\<^sup>* `` (set matches \<union> {i \<in> set (current # toCheck). color (bs ! i) = tc})"
      by blast
  qed
  with old(6)
  show "set res \<subseteq> ?E\<^sup>* `` (set matches \<union> {i \<in> set (current # toCheck). color (bs ! i) = tc})"
    by (rule subset_trans)
qed

lemma floodFill_ffPost:
  "distinct (map id_b bs) \<Longrightarrow> ffInv bs tc toCheck visited matches
     \<Longrightarrow> ffPost bs tc toCheck matches (floodFill bs tc toCheck visited matches)"
proof (induction bs tc toCheck visited matches rule: floodFill.induct)
  case (1 bs targetColor visited matches)
  then show ?case by (simp add: ffInv_done floodFill.simps)
next
  case (2 bs targetColor current toCheck visited matches)
  note d = "2.prems"(1) and inv = "2.prems"(2)
  have cur: "current < length bs" using inv by (simp add: ffInv_def)
  show ?case
  proof (cases "id_b (bs ! current) \<in> set visited")
    case True
    from ffInv_skip [OF inv True] have "ffInv bs targetColor toCheck visited matches" .
    from "2.IH"(1) [OF True d this] True show ?thesis
      by (simp add: ffPost_skip floodFill.simps)
  next
    case unvisited: False
    show ?thesis
    proof (cases "color (bs ! current) = targetColor")
      case True
      from ffInv_match [OF inv unvisited True d]
      have "ffPost bs targetColor
              (rev (neighborsOf bs (id_b (bs ! current) # visited) current) @ toCheck)
              (matches @ [current])
              (floodFill bs targetColor
                (rev (neighborsOf bs (id_b (bs ! current) # visited) current) @ toCheck)
                (id_b (bs ! current) # visited) (matches @ [current]))"
        by (rule "2.IH"(2) [OF unvisited True d])
      from ffPost_match [OF this True cur] unvisited True show ?thesis
        by (simp add: floodFill.simps)
    next
      case False
      from ffInv_other [OF inv False d]
      have "ffPost bs targetColor toCheck matches
              (floodFill bs targetColor toCheck (id_b (bs ! current) # visited) matches)"
        by (rule "2.IH"(3) [OF unvisited False d])
      then show ?thesis using unvisited False by (simp add: ffPost_skip floodFill.simps)
    qed
  qed
qed

lemma floodFill_start:
  assumes "distinct (map id_b bs)" "start < length bs"
  shows "ffPost bs (color (bs ! start)) [start] [] (floodFill bs (color (bs ! start)) [start] [] [])
    \<and> start \<in> set (floodFill bs (color (bs ! start)) [start] [] [])"
proof -
  let ?tc = "color (bs ! start)"
  let ?R = "floodFill bs ?tc [start] [] []"
  have inv0: "ffInv bs ?tc [start] [] []"
    using assms(2) by (intro ffInvI) simp_all
  have post: "ffPost bs ?tc [start] [] ?R"
    by (rule floodFill_ffPost [OF assms(1) inv0])
  let ?N = "rev (neighborsOf bs (id_b (bs ! start) # []) start) @ []"
  have unfold: "?R = floodFill bs ?tc ?N (id_b (bs ! start) # []) ([] @ [start])"
    by (simp add: floodFill.simps)
  have "ffInv bs ?tc ?N (id_b (bs ! start) # []) ([] @ [start])"
    by (rule ffInv_match [OF inv0 _ _ assms(1)]) simp_all
  from floodFill_ffPost [OF assms(1) this]
  have "set ([] @ [start]) \<subseteq> set (floodFill bs ?tc ?N (id_b (bs ! start) # []) ([] @ [start]))"
    by (rule ffPostD(1))
  with unfold have "start \<in> set ?R" by simp
  with post show ?thesis by simp
qed

lemma floodFill_component:
  assumes "distinct (map id_b bs)" "start < length bs"
  shows "set (floodFill bs (color (bs ! start)) [start] [] []) = component bs start"
proof
  let ?tc = "color (bs ! start)"
  let ?R = "floodFill bs ?tc [start] [] []"
  let ?E = "sameColorStep bs ?tc"
  from floodFill_start [OF assms] have post: "ffPost bs ?tc [start] [] ?R" and st: "start \<in> set ?R"
    by simp_all
  note p = ffPostD [OF post]
  have "set [] \<union> {i \<in> set [start]. color (bs ! i) = ?tc} = {start}" by auto
  with p(6) show "set ?R \<subseteq> component bs start" by (simp add: component_def)
  show "component bs start \<subseteq> set ?R"
  proof
    fix j
    assume "j \<in> component bs start"
    then have "(start, j) \<in> ?E\<^sup>*" by (simp add: component_def)
    then show "j \<in> set ?R"
    proof (induction rule: rtrancl_induct)
      case base
      show ?case by (rule st)
    next
      case (step i k)
      from step.hyps(2) have "k < length bs" "active (bs ! k)" "color (bs ! k) = ?tc"
        "isNeighbor (bs ! i) (bs ! k)"
        by (simp_all add: sameColorStep_def)
      with p(5) step.IH show ?case by blast
    qed
  qed
qed

lemma floodFill_distinct:
  assumes "distinct (map id_b bs)" "start < length bs"
  shows "distinct (floodFill bs (color (bs ! start)) [start] [] [])"
  using floodFill_start [OF assms] by (blast dest: ffPostD(2))

lemma length_floodFill:
  assumes "distinct (map id_b bs)" "start < length bs"
  shows "length (floodFill bs (color (bs ! start)) [start] [] []) = card (component bs start)"
  using floodFill_component [OF assms] floodFill_distinct [OF assms]
  by (metis distinct_card)

lemma component_bound:
  "start < length bs \<Longrightarrow> component bs start \<subseteq> {..<length bs}"
proof
  fix j
  assume s: "start < length bs" and "j \<in> component bs start"
  then have "(start, j) \<in> (sameColorStep bs (color (bs ! start)))\<^sup>*" by (simp add: component_def)
  then show "j \<in> {..<length bs}"
    using s by (induction rule: rtrancl_induct) (simp_all add: sameColorStep_def)
qed

lemma component_members:
  assumes "j \<in> component bs start" "j \<noteq> start"
  shows "active (bs ! j) \<and> color (bs ! j) = color (bs ! start)"
proof -
  from assms(1) have "(start, j) \<in> (sameColorStep bs (color (bs ! start)))\<^sup>*"
    by (simp add: component_def)
  then show ?thesis using assms(2)
    by (cases rule: rtranclE) (simp_all add: sameColorStep_def)
qed

lemma length_popBubble: "length (popBubble bs i) = length bs"
  by (simp add: popBubble_def)

lemma length_foldl_popBubble: "length (foldl popBubble bs ms) = length bs"
  by (induction ms arbitrary: bs) (simp_all add: length_popBubble)

lemma nth_popBubble:
  "i < length bs \<Longrightarrow> popBubble bs m ! i = (if i = m then (bs ! i)\<lparr>active := False\<rparr> else bs ! i)"
  by (simp add: popBubble_def)

lemma nth_foldl_popBubble:
  "i < length bs \<Longrightarrow>
     foldl popBubble bs ms ! i = (if i \<in> set ms then (bs ! i)\<lparr>active := False\<rparr> else bs ! i)"
proof (induction ms arbitrary: bs)
  case Nil
  show ?case by simp
next
  case (Cons m ms)
  from Cons.prems have "i < length (popBubble bs m)" by (simp add: length_popBubble)
  from Cons.IH [OF this] Cons.prems show ?case
    by (simp add: nth_popBubble)
qed

lemma foldl_points: "foldl (\<lambda>p b. p + basePoints) acc ms = acc + int (length ms) * (basePoints :: int)"
  by (induction ms arbitrary: acc) (simp_all add: algebra_simps)

lemma points_even: "even (points c)"
  by (cases c) simp_all

lemma floor_combo:
  "real_of_int \<lfloor>real_of_int (int n * points c) * 1.5\<rfloor> = real n * real_of_int (points c) * 1.5"
proof -
  from points_even [of c] obtain h where h: "points c = 2 * h" by (elim evenE)
  have "real_of_int (int n * points c) * 1.5 = real_of_int (int n * h * 3)"
    by (simp add: h)
  then have "\<lfloor>real_of_int (int n * points c) * 1.5\<rfloor> = int n * h * 3"
    by (simp only: floor_of_int)
  then show ?thesis by (simp add: h)
qed

text \<open>
  Claim C4. For a seed in the array whose bubbles have distinct \<open>id\<close>s, the bubbles that
  \<open>checkMatches\<close> collects are exactly the connected component of the seed: the positions
  reached from it by \<open>isNeighbor\<close> steps through active bubbles of its colour. When the
  component has at least three members the call returns true and the new array is the old
  one with exactly the members of the component deactivated; when it has fewer the call
  returns false and the state, scores and flags included, is unchanged.
\<close>

theorem checkMatches_pops_whole_component:
  assumes "start < length (bubbles s)" and "distinct (map id_b (bubbles s))"
  shows "component (bubbles s) start \<subseteq> {..<length (bubbles s)}
    \<and> start \<in> component (bubbles s) start
    \<and> (\<forall>j \<in> component (bubbles s) start. j \<noteq> start \<longrightarrow>
          active (bubbles s ! j) \<and> color (bubbles s ! j) = color (bubbles s ! start))
    \<and> (3 \<le> card (component (bubbles s) start) \<longrightarrow>
          fst (checkMatches start s)
        \<and> length (bubbles (snd (checkMatches start s))) = length (bubbles s)
        \<and> (\<forall>i < length (bubbles s).
              bubbles (snd (checkMatches start s)) ! i =
                (if i \<in> component (bubbles s) start
                 then (bubbles s ! i)\<lparr>active := False\<rparr> else bubbles s ! i)))
    \<and> (card (component (bubbles s) start) < 3 \<longrightarrow>
          \<not> fst (checkMatches start s) \<and> snd (checkMatches start s) = s)"
proof -
  let ?bs = "bubbles s"
  let ?ms = "floodFill ?bs (color (?bs ! start)) [start] [] []"
  have len: "length ?ms = card (component ?bs start)" by (rule length_floodFill [OF assms(2,1)])
  have set: "set ?ms = component ?bs start" by (rule floodFill_component [OF assms(2,1)])
  have 1: "component ?bs start \<subseteq> {..<length ?bs}" by (rule component_bound [OF assms(1)])
  have 2: "start \<in> component ?bs start" by (simp add: component_def)
  have 3: "\<forall>j \<in> component ?bs start. j \<noteq> start \<longrightarrow>
          active (?bs ! j) \<and> color (?bs ! j) = color (?bs ! start)"
    using component_members by blast
  have 4: "fst (checkMatches start s)
        \<and> length (bubbles (snd (checkMatches start s))) = length ?bs
        \<and> (\<forall>i < length ?bs. bubbles (snd (checkMatches start s)) ! i =
                (if i \<in> component ?bs start then (?bs ! i)\<lparr>active := False\<rparr> else ?bs ! i))"
    if "3 \<le> card (component ?bs start)"
  proof -
    from that len have big: "3 \<le> length ?ms" by simp
    then have "bubbles (snd (checkMatches start s)) = foldl popBubble ?bs ?ms"
      and "fst (checkMatches start s)"
      by (simp_all add: checkMatches_def Let_def)
    then show ?thesis
      by (simp add: length_foldl_popBubble nth_foldl_popBubble set)
  qed
  have 5: "\<not> fst (checkMatches start s) \<and> snd (checkMatches start s) = s"
    if "card (component ?bs start) < 3"
  proof -
    from that len have "\<not> 3 \<le> length ?ms" by simp
    then show ?thesis by (simp add: checkMatches_def Let_def)
  qed
  from 1 2 3 4 5 show ?thesis by blast
qed

lemma chainBubbles_fill: "floodFill chainBubbles Red [3] [] [] = [3, 2, 0]"
  by (simp add: chainBubbles_def bubbleAt_def neighborsOf_def isNeighbor_def floodFill.simps)

lemma fourRed_fill: "floodFill fourRedBubbles Red [4] [] [] = [4, 2, 1, 0]"
  by (simp add: fourRedBubbles_def bubbleAt_def neighborsOf_def isNeighbor_def floodFill.simps)

lemma chainBubbles_component: "component chainBubbles 3 = {0, 2, 3}"
proof -
  have d: "distinct (map id_b chainBubbles)" by (simp add: chainBubbles_def bubbleAt_def)
  have l: "3 < length chainBubbles" by (simp add: chainBubbles_def)
  have c: "color (chainBubbles ! 3) = Red" by (simp add: chainBubbles_def bubbleAt_def)
  from floodFill_component [OF d l] have "component chainBubbles 3 = set (floodFill chainBubbles Red [3] [] [])"
    by (simp only: c)
  also have "\<dots> = set [3, 2, 0]" by (simp only: chainBubbles_fill)
  also have "\<dots> = {0, 2, 3}" by auto
  finally show ?thesis .
qed

lemma chainBubbles_popped:
  "map active (map (\<lambda>i. if i \<in> {0, 2, 3::nat} then (chainBubbles ! i)\<lparr>active := False\<rparr>
      else chainBubbles ! i) [0, 1, 2, 3, 4]) = [False, True, False, False, True]"
  by (simp add: chainBubbles_def bubbleAt_def)

theorem checkMatches_pops_whole_component_witness:
  "card (component (bubbles (restingState chainBubbles)) 3) = 3
   \<and> fst (checkMatches 3 (restingState chainBubbles))
   \<and> map active (bubbles (snd (checkMatches 3 (restingState chainBubbles))))
       = [False, True, False, False, True]"
proof -
  let ?s = "restingState chainBubbles"
  let ?bs' = "bubbles (snd (checkMatches 3 ?s))"
  have bs: "bubbles ?s = chainBubbles" by (simp add: restingState_def)
  have len: "length chainBubbles = 5" by (simp add: chainBubbles_def)
  have h1: "3 < length (bubbles ?s)" by (simp add: bs len)
  have h2: "distinct (map id_b (bubbles ?s))"
    by (simp add: bs) (simp add: chainBubbles_def bubbleAt_def)
  have c: "card (component (bubbles ?s) 3) = 3" by (simp add: bs chainBubbles_component)
  then have big: "3 \<le> card (component (bubbles ?s) 3)" by simp
  from checkMatches_pops_whole_component [OF h1 h2] big
  have r1: "fst (checkMatches 3 ?s)"
    and r2: "length ?bs' = length (bubbles ?s)"
    and r3: "\<forall>i < length (bubbles ?s). ?bs' ! i =
       (if i \<in> component (bubbles ?s) 3 then (bubbles ?s ! i)\<lparr>active := False\<rparr>
        else bubbles ?s ! i)"
    by blast+
  from r2 have l5: "length ?bs' = 5" by (simp add: bs len)
  from r3 have nth: "?bs' ! i =
       (if i \<in> {0, 2, 3} then (chainBubbles ! i)\<lparr>active := False\<rparr> else chainBubbles ! i)"
    if "i < 5" for i
    using that by (simp add: bs len chainBubbles_component)
  have "?bs' = map (\<lambda>i. ?bs' ! i) [0..<5]"
    using l5 by (metis map_nth)
  also have "\<dots> = map (\<lambda>i. if i \<in> {0, 2, 3} then (chainBubbles ! i)\<lparr>active := False\<rparr>
      else chainBubbles ! i) [0..<5]"
    by (rule map_cong) (simp_all add: nth)
  also have "[0..<5] = [0, 1, 2, 3, 4::nat]" by (simp add: upt_rec)
  finally have "map active ?bs' = [False, True, False, False, True]"
    by (simp only: chainBubbles_popped)
  with c r1 show ?thesis by simp
qed

text \<open>
  Claim C5. When the component of the seed has \<open>n \<ge> 3\<close> members and the colour of the seed
  has \<open>p\<close> points, the score grows by exactly \<open>n * p * m\<close> with \<open>m = 1.5\<close> if \<open>n > 3\<close> and
  \<open>m = 1\<close> otherwise: every point value of \<open>COLOR_CONFIG\<close> is even, so \<open>Math.floor\<close> changes
  nothing. Four red bubbles at 100 points each give 600.
\<close>

theorem checkMatches_score_increment:
  assumes "start < length (bubbles s)" and "distinct (map id_b (bubbles s))"
    and "3 \<le> card (component (bubbles s) start)"
  shows "real_of_int (scoreRef (snd (checkMatches start s))) =
           real_of_int (scoreRef s)
           + real (card (component (bubbles s) start))
             * real_of_int (points (color (bubbles s ! start)))
             * (if 3 < card (component (bubbles s) start) then 1.5 else 1.0)"
proof -
  let ?bs = "bubbles s"
  let ?c = "color (?bs ! start)"
  let ?ms = "floodFill ?bs ?c [start] [] []"
  let ?n = "card (component ?bs start)"
  have len: "length ?ms = ?n" by (rule length_floodFill [OF assms(2,1)])
  with assms(3) have big: "3 \<le> length ?ms" by simp
  have pts: "foldl (\<lambda>p b. p + points ?c) 0 ?ms = int ?n * points ?c"
    by (simp add: foldl_points len)
  from big have score: "scoreRef (snd (checkMatches start s)) =
      scoreRef s + \<lfloor>real_of_int (int ?n * points ?c) * (if 3 < ?n then 1.5 else 1.0)\<rfloor>"
    by (simp add: checkMatches_def Let_def pts len)
  show ?thesis
  proof (cases "3 < ?n")
    case True
    with score have "scoreRef (snd (checkMatches start s)) =
      scoreRef s + \<lfloor>real_of_int (int ?n * points ?c) * 1.5\<rfloor>" by simp
    then have "real_of_int (scoreRef (snd (checkMatches start s))) =
      real_of_int (scoreRef s) + real_of_int \<lfloor>real_of_int (int ?n * points ?c) * 1.5\<rfloor>" by simp
    with True show ?thesis by (simp only: floor_combo if_True)
  next
    case False
    with score have "scoreRef (snd (checkMatches start s)) = scoreRef s + int ?n * points ?c"
      by (simp del: of_int_mult)
    with False show ?thesis by simp
  qed
qed

lemma fourRed_component: "component fourRedBubbles 4 = {0, 1, 2, 4}"
proof -
  have d: "distinct (map id_b fourRedBubbles)" by (simp add: fourRedBubbles_def bubbleAt_def)
  have l: "4 < length fourRedBubbles" by (simp add: fourRedBubbles_def)
  have c: "color (fourRedBubbles ! 4) = Red" by (simp add: fourRedBubbles_def bubbleAt_def)
  from floodFill_component [OF d l]
  have "component fourRedBubbles 4 = set (floodFill fourRedBubbles Red [4] [] [])"
    by (simp only: c)
  also have "\<dots> = set [4, 2, 1, 0]" by (simp only: fourRed_fill)
  also have "\<dots> = {0, 1, 2, 4}" by auto
  finally show ?thesis .
qed

theorem checkMatches_score_increment_witness:
  "card (component (bubbles (restingState fourRedBubbles)) 4) = 4
   \<and> points (color (bubbles (restingState fourRedBubbles) ! 4)) = 100
   \<and> scoreRef (restingState fourRedBubbles) = 0
   \<and> scoreRef (snd (checkMatches 4 (restingState fourRedBubbles))) = 600"
proof -
  let ?s = "restingState fourRedBubbles"
  have bs: "bubbles ?s = fourRedBubbles" by (simp add: restingState_def)
  have h1: "4 < length (bubbles ?s)" by (simp add: bs) (simp add: fourRedBubbles_def)
  have h2: "distinct (map id_b (bubbles ?s))"
    by (simp add: bs) (simp add: fourRedBubbles_def bubbleAt_def)
  have c: "card (component (bubbles ?s) 4) = 4" by (simp add: bs fourRed_component)
  then have h3: "3 \<le> card (component (bubbles ?s) 4)" by simp
  have p: "points (color (bubbles ?s ! 4)) = 100"
    by (simp add: bs) (simp add: fourRedBubbles_def bubbleAt_def)
  have z: "scoreRef ?s = 0" by (simp add: restingState_def)
  from checkMatches_score_increment [OF h1 h2 h3]
  have "real_of_int (scoreRef (snd (checkMatches 4 ?s))) = 600"
    by (simp add: c p z)
  then have "real_of_int (scoreRef (snd (checkMatches 4 ?s))) = real_of_int 600" by simp
  then have "scoreRef (snd (checkMatches 4 ?s)) = 600" by (simp only: of_int_eq_iff)
  with c p z show ?thesis by simp
qed

subsection \<open>Landing on a full field\<close>

lemma scanCells_value: "length scanCells = 150 \<and> distinct scanCells \<and> scanCells ! 0 = (0, 0)"
  by code_simp

lemma checkMatches_small:
  assumes "start < length (bubbles s)" and "distinct (map id_b (bubbles s))"
    and "card (component (bubbles s) start) < 3"
  shows "checkMatches start s = (False, s)"
proof -
  from length_floodFill [OF assms(2,1)] assms(3)
  have "\<not> 3 \<le> length (floodFill (bubbles s) (color (bubbles s ! start)) [start] [] [])"
    by simp
  then show ?thesis by (simp add: checkMatches_def Let_def)
qed

lemma component_isolated:
  assumes "\<forall>j < length bs. \<not> (active (bs ! j) \<and> color (bs ! j) = color (bs ! start)
      \<and> isNeighbor (bs ! start) (bs ! j))"
  shows "component bs start = {start}"
proof -
  have "j = start" if "(start, j) \<in> (sameColorStep bs (color (bs ! start)))\<^sup>*" for j
    using that
  proof (induction rule: rtrancl_induct)
    case base
    show ?case by simp
  next
    case (step i k)
    with assms show ?case by (auto simp add: sameColorStep_def)
  qed
  then show ?thesis by (auto simp add: component_def)
qed

lemma foldl_unchanged: "\<forall>x \<in> set xs. f a x = a \<Longrightarrow> foldl f a xs = a"
  by (induction xs) simp_all

lemma findLanding_exhausted:
  assumes "\<forall>cell \<in> set scanCells. occupied (bubbles s) (fst cell) (snd cell)"
  shows "findLanding s width = \<lparr>bestDist = None, bestRow = 0, bestCol = 0, bestX = 0, bestY = 0\<rparr>"
  unfolding findLanding_def
  by (rule foldl_unchanged) (simp add: scanCell_def Let_def assms)

lemma occupied_fullField:
  assumes "cell \<in> set scanCells"
  shows "occupied fullField (fst cell) (snd cell)"
proof -
  let ?b = "bubbleAt 1000 (CellId (fst cell) (snd cell) 1) (fst cell) (snd cell)
              (threeColor (fst cell) (snd cell)) True"
  have "?b \<in> set fullField" using assms by (simp add: fullField_def)
  moreover have "active ?b \<and> row ?b = fst cell \<and> col ?b = snd cell" by (simp add: bubbleAt_def)
  ultimately show ?thesis unfolding occupied_def list_ex_iff by blast
qed

lemma scanCells_nonneg: "cell \<in> set scanCells \<Longrightarrow> 0 \<le> fst cell \<and> 0 \<le> snd cell"
  by (auto simp add: scanCells_def)

lemma no_red_neighbour_of_origin:
  assumes "0 \<le> r" "0 \<le> c" "row a = 0" "col a = 0" "row b = r" "col b = c" "isNeighbor a b"
  shows "threeColor r c \<noteq> Red"
proof -
  from assms have "(r = 0 \<and> c = 1) \<or> (r = 1 \<and> c = 0)"
    by (auto simp add: isNeighbor_def Let_def split: if_splits)
  then show ?thesis by (auto simp add: threeColor_def)
qed

lemma length_fullField: "length fullField = 150"
  using scanCells_value by (simp add: fullField_def)

lemma stray_isolated: "component (fullField @ [strayBubble]) 150 = {150}"
proof (rule component_isolated, intro allI impI notI)
  let ?bs = "fullField @ [strayBubble]"
  fix j
  assume j: "j < length ?bs"
    and n: "active (?bs ! j) \<and> color (?bs ! j) = color (?bs ! 150) \<and> isNeighbor (?bs ! 150) (?bs ! j)"
  have s: "?bs ! 150 = strayBubble" by (simp add: nth_append length_fullField)
  show False
  proof (cases "j = 150")
    case True
    with n s show False by (simp add: isNeighbor_def strayBubble_def)
  next
    case False
    with j have j': "j < 150" by (simp add: length_fullField)
    then have cell: "scanCells ! j \<in> set scanCells" using scanCells_value by simp
    obtain r c where rc: "scanCells ! j = (r, c)" by (cases "scanCells ! j")
    from j' have b: "?bs ! j = bubbleAt 1000 (CellId r c 1) r c (threeColor r c) True"
      using scanCells_value by (simp add: nth_append length_fullField fullField_def rc)
    from scanCells_nonneg [OF cell] rc have nn: "0 \<le> r" "0 \<le> c" by simp_all
    from n s b have red: "threeColor r c = Red" by (simp add: bubbleAt_def strayBubble_def)
    from n s b have "isNeighbor strayBubble (bubbleAt 1000 (CellId r c 1) r c (threeColor r c) True)"
      by simp
    from no_red_neighbour_of_origin [OF nn _ _ _ _ this] red show False
      by (simp add: strayBubble_def bubbleAt_def)
  qed
qed

lemma distinct_ids_full: "distinct (map id_b (fullField @ [strayBubble]))"
proof -
  let ?ids = "map (\<lambda>cell. CellId (fst cell) (snd cell) 1) scanCells"
  have eq: "map id_b fullField = ?ids"
    by (simp add: fullField_def bubbleAt_def comp_def)
  have d: "distinct ?ids"
    using scanCells_value by (simp add: distinct_map inj_on_def prod_eq_iff)
  have n: "id_b strayBubble \<notin> set ?ids"
    by (auto simp add: strayBubble_def)
  have 1: "distinct (map id_b fullField)" using d unfolding eq .
  have 2: "id_b strayBubble \<notin> set (map id_b fullField)" using n unfolding eq .
  from 1 2 show ?thesis by simp
qed

lemma landProjectile_fullState:
  "bubbles (landProjectile 1000 2 fullState) = fullField @ [strayBubble]"
proof -
  have bs: "bubbles fullState = fullField" by (simp add: fullState_def restingState_def)
  have "\<forall>cell \<in> set scanCells. occupied (bubbles fullState) (fst cell) (snd cell)"
    by (simp add: bs occupied_fullField)
  from findLanding_exhausted [OF this]
  have best: "findLanding fullState 1000
      = \<lparr>bestDist = None, bestRow = 0, bestCol = 0, bestX = 0, bestY = 0\<rparr>" .
  have sel: "selectedColorRef fullState = Red" by (simp add: fullState_def restingState_def)
  let ?s1 = "fullState\<lparr>isFlying := False, bubbles := fullField @ [strayBubble]\<rparr>"
  have "checkMatches 150 ?s1 = (False, ?s1)"
  proof (rule checkMatches_small)
    show "150 < length (bubbles ?s1)" by (simp add: length_fullField)
    show "distinct (map id_b (bubbles ?s1))" using distinct_ids_full by simp
    show "card (component (bubbles ?s1) 150) < 3" by (simp add: stray_isolated)
  qed
  then show ?thesis
    by (simp add: landProjectile_def Let_def best bs sel length_fullField strayBubble_def)
qed

lemma cellsUnique_fullField: "cellsUnique fullField"
proof -
  have "filter active fullField = fullField"
    by (rule filter_True) (auto simp add: fullField_def bubbleAt_def)
  moreover have "map (\<lambda>b. (row b, col b)) fullField = scanCells"
    by (simp add: fullField_def bubbleAt_def comp_def)
  ultimately show ?thesis using scanCells_value by (simp add: cellsUnique_def)
qed

lemma not_cellsUnique_stray: "\<not> cellsUnique (fullField @ [strayBubble])"
proof -
  have "(0, 0) \<in> set scanCells" using scanCells_value by (metis nth_mem zero_less_numeral)
  then have "bubbleAt 1000 (CellId 0 0 1) 0 0 (threeColor 0 0) True \<in> set fullField"
    by (force simp add: fullField_def)
  then have "(0, 0) \<in> (\<lambda>b. (row b, col b)) ` set (filter active fullField)"
    by (force simp add: bubbleAt_def)
  then show ?thesis by (simp add: cellsUnique_def strayBubble_def)
qed

text \<open>
  Claim C2. When the scan finds no empty cell the shot is to be dropped without placing a
  bubble. The code has no such case: in \<open>fullState\<close> every cell of rows 0 to 12 is occupied,
  the scan leaves \<open>bestDist\<close> at \<open>Infinity\<close> and the other variables at 0, and the block pushes
  an active bubble in cell (0, 0) at pixel (0, 0), so that the array grows by one.
\<close>

theorem landProjectile_exhausted_places_bubble:
  "filter (\<lambda>cell. \<not> occupied (bubbles fullState) (fst cell) (snd cell)) scanCells = []
   \<and> bestDist (findLanding fullState 1000) = None
   \<and> bubbles (landProjectile 1000 2 fullState)
       = bubbles fullState @ [\<lparr>id_b = CellId 0 0 2, row = 0, col = 0, x_b = 0, y_b = 0,
                                color = Red, active = True\<rparr>]"
proof -
  have bs: "bubbles fullState = fullField" by (simp add: fullState_def restingState_def)
  have occ: "\<forall>cell \<in> set scanCells. occupied (bubbles fullState) (fst cell) (snd cell)"
    by (simp add: bs occupied_fullField)
  then have "filter (\<lambda>cell. \<not> occupied (bubbles fullState) (fst cell) (snd cell)) scanCells = []"
    by (simp add: filter_empty_conv)
  moreover have "bestDist (findLanding fullState 1000) = None"
    by (simp add: findLanding_exhausted [OF occ])
  ultimately show ?thesis
    by (simp add: landProjectile_fullState bs strayBubble_def)
qed

text \<open>
  Claim C3. No two active bubbles are to share a cell in any reachable state. The same
  landing breaks it: the field of \<open>fullState\<close> has one active bubble per cell, and after
  \<open>landProjectile\<close> the new bubble and the old one of cell (0, 0) are both active.
\<close>

theorem landProjectile_exhausted_breaks_uniqueness:
  "cellsUnique (bubbles fullState)
   \<and> \<not> cellsUnique (bubbles (landProjectile 1000 2 fullState))"
  by (simp add: landProjectile_fullState not_cellsUnique_stray)
     (simp add: fullState_def restingState_def cellsUnique_fullField)

subsection \<open>The targeting test\<close>

lemma bubbleLoop_iff:
  "bubbleLoop target c bs \<longleftrightarrow>
     \<not> (\<exists>b \<in> set bs. active b \<and> id_b b \<noteq> id_b target
          \<and> (x_p c - x_b b)\<^sup>2 + (y_p c - y_b b)\<^sup>2 < (BUBBLE_RADIUS * 1.8)\<^sup>2)"
  by (induction bs) auto

lemma sampleLoop_iff:
  "sampleLoop target s i \<longleftrightarrow>
     (\<forall>j. i \<le> j \<and> j < pathSteps target s - 2 \<longrightarrow> bubbleLoop target (samplePoint target s j) (bubbles s))"
proof (induction target s i rule: sampleLoop.induct)
  case (1 target s i)
  show ?case
  proof (cases "i < pathSteps target s - 2")
    case False
    then have "sampleLoop target s i" by (simp add: sampleLoop.simps [of target s i])
    moreover have "\<forall>j. i \<le> j \<and> j < pathSteps target s - 2
        \<longrightarrow> bubbleLoop target (samplePoint target s j) (bubbles s)"
    proof (intro allI impI)
      fix j
      assume "i \<le> j \<and> j < pathSteps target s - 2"
      with False have False by arith
      then show "bubbleLoop target (samplePoint target s j) (bubbles s)" by simp
    qed
    ultimately show ?thesis by simp
  next
    case inside: True
    show ?thesis
    proof (cases "bubbleLoop target (samplePoint target s i) (bubbles s)")
      case False
      with inside show ?thesis by (auto simp add: sampleLoop.simps)
    next
      case True
      have "(\<forall>j. i \<le> j \<and> j < pathSteps target s - 2 \<longrightarrow> bubbleLoop target (samplePoint target s j) (bubbles s))
        \<longleftrightarrow> (\<forall>j. i + 1 \<le> j \<and> j < pathSteps target s - 2 \<longrightarrow> bubbleLoop target (samplePoint target s j) (bubbles s))"
      proof
        assume r: "\<forall>j. i + 1 \<le> j \<and> j < pathSteps target s - 2 \<longrightarrow> bubbleLoop target (samplePoint target s j) (bubbles s)"
        show "\<forall>j. i \<le> j \<and> j < pathSteps target s - 2 \<longrightarrow> bubbleLoop target (samplePoint target s j) (bubbles s)"
        proof (intro allI impI)
          fix j assume j: "i \<le> j \<and> j < pathSteps target s - 2"
          show "bubbleLoop target (samplePoint target s j) (bubbles s)"
          proof (cases "j = i")
            case True with \<open>bubbleLoop target (samplePoint target s i) (bubbles s)\<close> show ?thesis by simp
          next
            case False with j r show ?thesis by simp
          qed
        qed
      qed simp
      with "1.IH" [OF inside True] inside True show ?thesis
        by (simp add: sampleLoop.simps [of target s i])
    qed
  qed
qed

lemma within_iff:
  "sqrt ((cx - bx)\<^sup>2 + (cy - by)\<^sup>2) < 1.8 * BUBBLE_RADIUS
    \<longleftrightarrow> (cx - bx)\<^sup>2 + (cy - by)\<^sup>2 < (BUBBLE_RADIUS * 1.8)\<^sup>2"
proof -
  have "sqrt ((BUBBLE_RADIUS * 1.8)\<^sup>2) = 1.8 * BUBBLE_RADIUS"
    by (simp add: BUBBLE_RADIUS_def)
  then have "sqrt ((cx - bx)\<^sup>2 + (cy - by)\<^sup>2) < 1.8 * BUBBLE_RADIUS
    \<longleftrightarrow> sqrt ((cx - bx)\<^sup>2 + (cy - by)\<^sup>2) < sqrt ((BUBBLE_RADIUS * 1.8)\<^sup>2)"
    by simp
  then show ?thesis by (simp only: real_sqrt_less_iff)
qed

lemma isPathClear_pathSteps:
  "(\<not> isPathClear target s) =
     (\<exists>i b. 1 \<le> i \<and> i < pathSteps target s - 2 \<and> b \<in> set (bubbles s)
        \<and> active b \<and> id_b b \<noteq> id_b target
        \<and> sqrt ((x_p (samplePoint target s i) - x_b b)\<^sup>2
               + (y_p (samplePoint target s i) - y_b b)\<^sup>2) < 1.8 * BUBBLE_RADIUS)"
  unfolding isPathClear_def sampleLoop_iff bubbleLoop_iff within_iff by blast

lemma checked_fraction:
  fixes i steps :: int
  assumes "1 \<le> i" "i < steps - 2"
  shows "0 < real_of_int i / real_of_int steps \<and> real_of_int i / real_of_int steps < 1"
  using assms by simp

text \<open>
  Claim C9. With \<open>(ax, ay)\<close> the anchor, \<open>(dx, dy)\<close> the vector from the anchor to the target
  and \<open>steps = ceil (sqrt (dx^2 + dy^2) / (22 / 2))\<close>, \<open>isPathClear\<close> returns false exactly
  when, for some \<open>i\<close> with \<open>1 \<le> i < steps - 2\<close>, some active bubble whose \<open>id\<close> is not the
  target's lies closer than \<open>1.8 * 22\<close> to the point \<open>(ax, ay) + (i / steps) * (dx, dy)\<close>.
  For each such \<open>i\<close> the fraction \<open>i / steps\<close> is strictly between 0 and 1: the points
  checked are on the segment, the one at the anchor and those nearest the target left out.
\<close>

theorem isPathClear_checks_segment:
  "(let ax = x_p (anchorPos s); ay = y_p (anchorPos s);
        dx = x_b target - ax; dy = y_b target - ay;
        steps = \<lceil>sqrt (dx * dx + dy * dy) / (22 / 2)\<rceil>
    in ((\<not> isPathClear target s) =
          (\<exists>i b. 1 \<le> i \<and> i < steps - 2 \<and> b \<in> set (bubbles s)
             \<and> active b \<and> id_b b \<noteq> id_b target
             \<and> sqrt ((ax + dx * (real_of_int i / real_of_int steps) - x_b b)\<^sup>2
                    + (ay + dy * (real_of_int i / real_of_int steps) - y_b b)\<^sup>2) < 1.8 * 22))
       \<and> (\<forall>i. 1 \<le> i \<and> i < steps - 2 \<longrightarrow>
             0 < real_of_int i / real_of_int steps \<and> real_of_int i / real_of_int steps < 1))"
  using isPathClear_pathSteps [of target s] checked_fraction
  by (simp add: pathSteps_def samplePoint_def Let_def BUBBLE_RADIUS_def)

lemma sqrt3_bounds: "173 / 100 < sqrt 3" "sqrt 3 < 174 / 100"
proof -
  show "173 / 100 < sqrt 3" by (rule real_less_rsqrt) (simp add: power2_eq_square)
  show "sqrt 3 < 174 / 100" by (rule real_less_lsqrt) (simp_all add: power2_eq_square)
qed

lemma blocked_positions:
  "x_b blockedTarget = 500" "y_b blockedTarget = 22 + 22 * sqrt 3"
  "x_b blocker = 500" "y_b blocker = 22 + 110 * sqrt 3"
  by (simp_all add: blockedTarget_def blocker_def bubbleAt_def getBubblePos_def Let_def
      GRID_COLS_def BUBBLE_RADIUS_def ROW_HEIGHT_def)

lemma restingState_fields:
  "anchorPos (restingState bs) = \<lparr>x_p = 500, y_p = 500\<rparr>" "bubbles (restingState bs) = bs"
  by (simp_all add: restingState_def)

lemma sqrt_near:
  assumes "\<bar>u\<bar> \<le> 5" "\<bar>v\<bar> \<le> 5"
  shows "sqrt (u\<^sup>2 + v\<^sup>2) < 1.8 * 22"
proof -
  have "sqrt (u\<^sup>2 + v\<^sup>2) \<le> \<bar>u\<bar> + \<bar>v\<bar>" by (rule sqrt_sum_squares_le_sum_abs)
  with assms show ?thesis by simp
qed

theorem isPathClear_checks_segment_witness:
  "\<not> isPathClear blockedTarget (restingState [blockedTarget, blocker])
   \<and> active blocker \<and> color blocker = Blue \<and> color blockedTarget = Red
   \<and> \<not> isPathClear (bubbles obliqueState ! 0) obliqueState
   \<and> color (bubbles obliqueState ! 0) = Red \<and> color (bubbles obliqueState ! 1) = Blue
   \<and> active (bubbles obliqueState ! 1)"
proof -
  let ?s = "restingState [blockedTarget, blocker]"
  have a: "\<bar>22 * sqrt 3 - 478\<bar> = 478 - 22 * sqrt 3" using sqrt3_bounds by simp
  have c: "\<lceil>(478 - 22 * sqrt 3) / 11\<rceil> = 40"
    using sqrt3_bounds by (intro ceiling_unique) simp_all
  have facts: "active blocker" "color blocker = Blue" "color blockedTarget = Red"
    "id_b blocker \<noteq> id_b blockedTarget" "blocker \<in> set (bubbles ?s)"
    by (simp_all add: blocker_def blockedTarget_def bubbleAt_def restingState_fields)
  have "\<bar>500 + (22 + 22 * sqrt 3 - 500) * (26 / 40) - (22 + 110 * sqrt 3)\<bar> \<le> 5"
    using sqrt3_bounds by (simp add: abs_le_iff algebra_simps)
  then have near: "sqrt ((500 + (500 - 500) * (26 / 40) - 500)\<^sup>2
      + (500 + (22 + 22 * sqrt 3 - 500) * (26 / 40) - (22 + 110 * sqrt 3))\<^sup>2) < 1.8 * 22"
    by (intro sqrt_near) simp_all
  have first: "\<not> isPathClear blockedTarget ?s"
  proof -
    have "\<exists>i b. 1 \<le> i \<and> i < (40::int) - 2 \<and> b \<in> set (bubbles ?s)
             \<and> active b \<and> id_b b \<noteq> id_b blockedTarget
             \<and> sqrt ((500 + (500 - 500) * (real_of_int i / real_of_int 40) - x_b b)\<^sup>2
                    + (500 + (22 + 22 * sqrt 3 - 500) * (real_of_int i / real_of_int 40) - y_b b)\<^sup>2)
                 < 1.8 * 22"
      using near facts
      by (intro exI [of _ 26] exI [of _ blocker]) (simp add: blocked_positions)
    with isPathClear_checks_segment [of ?s blockedTarget] show ?thesis
      by (simp add: Let_def restingState_fields blocked_positions a c)
  qed
  let ?t = "bubbleAt 1000 (CellId 0 7 1) 0 7 Red True"
  let ?k = "bubbleAt 1000 (CellId 1 6 1) 1 6 Blue True"
  have ob: "bubbles obliqueState = [?t, ?k]" "anchorPos obliqueState = \<lparr>x_p = 500, y_p = 110\<rparr>"
    by (simp_all add: obliqueState_def restingState_def)
  have pos: "x_b ?t = 566" "y_b ?t = 22" "x_b ?k = 544" "y_b ?k = 22 + 22 * sqrt 3"
    by (simp_all add: bubbleAt_def getBubblePos_def Let_def GRID_COLS_def BUBBLE_RADIUS_def
        ROW_HEIGHT_def)
  have ofacts: "active ?k" "color ?k = Blue" "color ?t = Red" "id_b ?k \<noteq> id_b ?t"
    by (simp_all add: bubbleAt_def)
  have d: "sqrt 12100 = 110" using real_sqrt_abs [of 110] by simp
  have "\<bar>110 + (22 - 110) * (6 / 10) - (22 + 22 * sqrt 3)\<bar> \<le> 5"
    using sqrt3_bounds by (simp add: abs_le_iff algebra_simps)
  then have onear: "sqrt ((500 + (566 - 500) * (6 / 10) - 544)\<^sup>2
      + (110 + (22 - 110) * (6 / 10) - (22 + 22 * sqrt 3))\<^sup>2) < 1.8 * 22"
    by (intro sqrt_near) simp_all
  have second: "\<not> isPathClear ?t obliqueState"
  proof -
    have "\<exists>i b. 1 \<le> i \<and> i < (10::int) - 2 \<and> b \<in> set [?t, ?k]
             \<and> active b \<and> id_b b \<noteq> id_b ?t
             \<and> sqrt ((500 + (566 - 500) * (real_of_int i / real_of_int 10) - x_b b)\<^sup>2
                    + (110 + (22 - 110) * (real_of_int i / real_of_int 10) - y_b b)\<^sup>2)
                 < 1.8 * 22"
      using onear ofacts
      by (intro exI [of _ 6] exI [of _ ?k]) (simp add: pos)
    with isPathClear_checks_segment [of obliqueState ?t] show ?thesis
      by (simp add: Let_def ob pos d)
  qed
  from first second facts ofacts show ?thesis by (simp add: ob)
qed

subsection \<open>Aiming and releasing\<close>

lemma release_launch:
  assumes "30 < stretchDist s"
  shows "release now s = s\<lparr>isPinching := False, isFlying := True, flightStartTime := now,
           ballVel := \<lparr>x_p = (x_p (anchorPos s) - x_p (ballPos s)) * velocityMultiplier (stretchDist s),
                        y_p = (y_p (anchorPos s) - y_p (ballPos s)) * velocityMultiplier (stretchDist s)\<rparr>\<rparr>"
  using assms
  by (simp add: release_def Let_def stretchDist_def velocityMultiplier_def power2_eq_square)

lemma release_cancel:
  assumes "\<not> 30 < stretchDist s"
  shows "release now s = s\<lparr>isPinching := False, ballPos := anchorPos s\<rparr>"
  using assms by (simp add: release_def Let_def stretchDist_def)

text \<open>
  Claim C7. When input is not blocked (menu closed, game not over), the ball is pinched
  and not flying, and the pinch ends (no hand, or the finger tips at least
  \<open>PINCH_THRESHOLD\<close> apart), the projectile flies afterwards exactly when the stretch is
  strictly greater than 30. Then its velocity is \<open>(anchor - ballPos) * velocityMultiplier\<close>
  with \<open>velocityMultiplier = MIN_FORCE_MULT + (MAX_FORCE_MULT - MIN_FORCE_MULT) * r^2\<close>,
  \<open>r = min (stretch / 180) 1\<close>, a value between 0.15 and 0.45. At a stretch of 30 or less
  the ball is put back on the anchor, neither pinched nor flying.
\<close>

theorem release_launches_iff:
  assumes "\<not> isMenuOpen" and "\<not> isGameOver s"
    and "isPinching s" and "\<not> isFlying s"
    and "handPos = None \<or> PINCH_THRESHOLD \<le> pinchDist"
  shows "(isFlying (handleInput isMenuOpen handPos pinchDist now s) \<longleftrightarrow> 30 < stretchDist s)
    \<and> \<not> isPinching (handleInput isMenuOpen handPos pinchDist now s)
    \<and> (30 < stretchDist s \<longrightarrow>
          ballVel (handleInput isMenuOpen handPos pinchDist now s)
            = \<lparr>x_p = (x_p (anchorPos s) - x_p (ballPos s)) * velocityMultiplier (stretchDist s),
               y_p = (y_p (anchorPos s) - y_p (ballPos s)) * velocityMultiplier (stretchDist s)\<rparr>
        \<and> ballPos (handleInput isMenuOpen handPos pinchDist now s) = ballPos s)
    \<and> (stretchDist s \<le> 30 \<longrightarrow>
          ballPos (handleInput isMenuOpen handPos pinchDist now s) = anchorPos s
        \<and> ballVel (handleInput isMenuOpen handPos pinchDist now s) = ballVel s)
    \<and> velocityMultiplier (stretchDist s)
         = MIN_FORCE_MULT + (MAX_FORCE_MULT - MIN_FORCE_MULT) * (min (stretchDist s / 180) 1)\<^sup>2
    \<and> MIN_FORCE_MULT \<le> velocityMultiplier (stretchDist s)
    \<and> velocityMultiplier (stretchDist s) \<le> MAX_FORCE_MULT"
proof -
  have br: "handleInput isMenuOpen handPos pinchDist now s = release now s"
    using assms by (auto simp add: handleInput_def Let_def)
  have nonneg: "0 \<le> stretchDist s" by (simp add: stretchDist_def)
  then have r0: "0 \<le> min (stretchDist s / 180) 1" by simp
  have r1: "min (stretchDist s / 180) 1 \<le> 1" by simp
  from r0 r1 have sq: "(min (stretchDist s / 180) 1)\<^sup>2 \<le> 1"
    by (simp add: power_le_one)
  have vm: "velocityMultiplier (stretchDist s)
         = MIN_FORCE_MULT + (MAX_FORCE_MULT - MIN_FORCE_MULT) * (min (stretchDist s / 180) 1)\<^sup>2"
    by (simp add: velocityMultiplier_def MAX_DRAG_DIST_def)
  have lo: "MIN_FORCE_MULT \<le> velocityMultiplier (stretchDist s)"
    by (simp add: vm MIN_FORCE_MULT_def MAX_FORCE_MULT_def)
  have hi: "velocityMultiplier (stretchDist s) \<le> MAX_FORCE_MULT"
    using sq by (simp add: vm MIN_FORCE_MULT_def MAX_FORCE_MULT_def)
  show ?thesis
  proof (cases "30 < stretchDist s")
    case True
    with assms(4) vm lo hi show ?thesis by (simp add: br release_launch)
  next
    case False
    with assms(4) vm lo hi show ?thesis by (simp add: br release_cancel)
  qed
qed

lemma aimingState_fields:
  "isPinching (aimingState d)" "\<not> isFlying (aimingState d)" "\<not> isGameOver (aimingState d)"
  "anchorPos (aimingState d) = \<lparr>x_p = 500, y_p = 500\<rparr>"
  "ballPos (aimingState d) = \<lparr>x_p = 500, y_p = 500 + d\<rparr>"
  "ballVel (aimingState d) = \<lparr>x_p = 0, y_p = 0\<rparr>"
  by (simp_all add: aimingState_def restingState_def)

lemma stretchDist_aimingState: "stretchDist (aimingState d) = \<bar>d\<bar>"
  by (simp add: stretchDist_def aimingState_fields)

theorem release_launches_iff_witness:
  "isFlying (handleInput False None 1 0 (aimingState 180))
   \<and> ballVel (handleInput False None 1 0 (aimingState 180)) = \<lparr>x_p = 0, y_p = - 81\<rparr>
   \<and> stretchDist (aimingState 30) = 30
   \<and> \<not> isFlying (handleInput False None 1 0 (aimingState 30))
   \<and> \<not> isPinching (handleInput False None 1 0 (aimingState 30))
   \<and> ballPos (handleInput False None 1 0 (aimingState 30)) = anchorPos (aimingState 30)"
proof -
  have v: "velocityMultiplier 180 = 0.45"
    by (simp add: velocityMultiplier_def MAX_DRAG_DIST_def MIN_FORCE_MULT_def MAX_FORCE_MULT_def)
  from release_launches_iff [of False "aimingState 180" None 1 0]
  have far: "isFlying (handleInput False None 1 0 (aimingState 180))
    \<and> ballVel (handleInput False None 1 0 (aimingState 180)) = \<lparr>x_p = 0, y_p = - 81\<rparr>"
    by (simp add: aimingState_fields stretchDist_aimingState v)
  from release_launches_iff [of False "aimingState 30" None 1 0]
  have near: "\<not> isFlying (handleInput False None 1 0 (aimingState 30))
    \<and> \<not> isPinching (handleInput False None 1 0 (aimingState 30))
    \<and> ballPos (handleInput False None 1 0 (aimingState 30)) = anchorPos (aimingState 30)"
    by (simp add: aimingState_fields stretchDist_aimingState)
  from far near show ?thesis by (simp add: stretchDist_aimingState)
qed

lemma stretchDist_swap:
  "stretchDist s = sqrt ((x_p (ballPos s) - x_p (anchorPos s)) * (x_p (ballPos s) - x_p (anchorPos s))
         + (y_p (ballPos s) - y_p (anchorPos s)) * (y_p (ballPos s) - y_p (anchorPos s)))"
proof -
  have "(a - b) * (a - b) = (b - a) * (b - a)" for a b :: real by (simp add: algebra_simps)
  then show ?thesis unfolding stretchDist_def by metis
qed

lemma stretchDist_clamped:
  assumes "ballPos t = \<lparr>x_p = x_p (anchorPos t) + cos a * 180, y_p = y_p (anchorPos t) + sin a * 180\<rparr>"
  shows "stretchDist t = 180"
proof -
  have x: "x_p (anchorPos t) - x_p (ballPos t) = - (cos a * 180)"
    and y: "y_p (anchorPos t) - y_p (ballPos t) = - (sin a * 180)"
    by (simp_all add: assms)
  have one: "cos a * cos a + sin a * sin a = 1" by simp
  have "(- (cos a * 180)) * (- (cos a * 180)) + (- (sin a * 180)) * (- (sin a * 180)) = 180 * 180"
    using one by algebra
  then have "stretchDist t = sqrt (180 * 180)"
    by (simp only: stretchDist_def x y)
  then show ?thesis by simp
qed

lemma aim_flags: "isFlying (aim p s) = isFlying s" "anchorPos (aim p s) = anchorPos s"
  by (simp_all add: aim_def Let_def)

lemma aim_clamps: "drawClamped (aim p s)"
proof (cases "isPinching s \<or> sqrt ((x_p p - x_p (ballPos s))\<^sup>2 + (y_p p - y_p (ballPos s))\<^sup>2) < 100")
  case False
  then have "\<not> isPinching (aim p s)" by (simp add: aim_def Let_def)
  then show ?thesis by (simp add: drawClamped_def)
next
  case True
  let ?d = "sqrt ((x_p p - x_p (anchorPos s)) * (x_p p - x_p (anchorPos s))
      + (y_p p - y_p (anchorPos s)) * (y_p p - y_p (anchorPos s)))"
  let ?a = "atan2 (y_p p - y_p (anchorPos s)) (x_p p - x_p (anchorPos s))"
  show ?thesis
  proof (cases "?d > MAX_DRAG_DIST")
    case over: True
    with True have "ballPos (aim p s) =
        \<lparr>x_p = x_p (anchorPos s) + cos ?a * 180, y_p = y_p (anchorPos s) + sin ?a * 180\<rparr>"
      by (auto simp add: aim_def Let_def MAX_DRAG_DIST_def)
    then have "ballPos (aim p s) =
        \<lparr>x_p = x_p (anchorPos (aim p s)) + cos ?a * 180,
         y_p = y_p (anchorPos (aim p s)) + sin ?a * 180\<rparr>"
      by (simp only: aim_flags)
    then have "stretchDist (aim p s) = 180" by (rule stretchDist_clamped)
    then show ?thesis by (simp add: drawClamped_def MAX_DRAG_DIST_def)
  next
    case under: False
    with True have "ballPos (aim p s) = \<lparr>x_p = x_p p, y_p = y_p p\<rparr>"
      by (auto simp add: aim_def Let_def)
    then have "stretchDist (aim p s) = ?d"
      by (simp add: stretchDist_swap aim_flags)
    with under show ?thesis by (simp add: drawClamped_def)
  qed
qed

lemma springBack_flags:
  "isFlying (springBack s) = isFlying s" "isPinching (springBack s) = isPinching s"
  by (simp_all add: springBack_def Let_def)

lemma release_not_pinching: "\<not> isPinching (release now s)"
  by (simp add: release_def Let_def)

lemma handleInput_cases:
  "(\<exists>p. handleInput isMenuOpen handPos pinchDist now s = aim p s)
   \<or> (handleInput isMenuOpen handPos pinchDist now s = release now s \<and> isPinching s)
   \<or> (handleInput isMenuOpen handPos pinchDist now s = springBack s \<and> \<not> isPinching s)
   \<or> handleInput isMenuOpen handPos pinchDist now s = s"
proof (cases "\<not> isMenuOpen \<and> \<not> isGameOver s \<and> handPos \<noteq> None \<and> pinchDist < PINCH_THRESHOLD
    \<and> \<not> isFlying s")
  case True
  then obtain p where "handPos = Some p" by auto
  with True have "handleInput isMenuOpen handPos pinchDist now s = aim p s"
    by (auto simp add: handleInput_def Let_def)
  then show ?thesis by blast
next
  case first: False
  show ?thesis
  proof (cases "\<not> isMenuOpen \<and> \<not> isGameOver s \<and> isPinching s
      \<and> (handPos = None \<or> pinchDist \<ge> PINCH_THRESHOLD)")
    case True
    with first have "handleInput isMenuOpen handPos pinchDist now s = release now s"
      by (auto simp add: handleInput_def Let_def)
    with True show ?thesis by blast
  next
    case second: False
    show ?thesis
    proof (cases "\<not> isFlying s \<and> \<not> isPinching s")
      case True
      with first second have "handleInput isMenuOpen handPos pinchDist now s = springBack s"
        by (auto simp add: handleInput_def Let_def)
      with True show ?thesis by blast
    next
      case False
      with first second have "handleInput isMenuOpen handPos pinchDist now s = s"
        by (auto simp add: handleInput_def Let_def)
      then show ?thesis by blast
    qed
  qed
qed

lemma handleInput_clamped:
  assumes "drawClamped s"
  shows "drawClamped (handleInput isMenuOpen handPos pinchDist now s)"
proof -
  from handleInput_cases [of isMenuOpen handPos pinchDist now s]
  consider (a) p where "handleInput isMenuOpen handPos pinchDist now s = aim p s"
    | (r) "handleInput isMenuOpen handPos pinchDist now s = release now s"
    | (b) "handleInput isMenuOpen handPos pinchDist now s = springBack s" "\<not> isPinching s"
    | (n) "handleInput isMenuOpen handPos pinchDist now s = s"
    by blast
  then show ?thesis
  proof cases
    case a then show ?thesis by (simp add: aim_clamps)
  next
    case r then show ?thesis by (simp add: drawClamped_def release_not_pinching)
  next
    case b then show ?thesis by (simp add: drawClamped_def springBack_flags)
  next
    case n with assms show ?thesis by simp
  qed
qed

lemma handleInput_launch:
  assumes "\<not> isFlying s" "isFlying (handleInput isMenuOpen handPos pinchDist now s)"
  shows "handleInput isMenuOpen handPos pinchDist now s = release now s \<and> isPinching s
    \<and> 30 < stretchDist s"
proof -
  from handleInput_cases [of isMenuOpen handPos pinchDist now s]
  consider (a) p where "handleInput isMenuOpen handPos pinchDist now s = aim p s"
    | (r) "handleInput isMenuOpen handPos pinchDist now s = release now s" "isPinching s"
    | (b) "handleInput isMenuOpen handPos pinchDist now s = springBack s"
    | (n) "handleInput isMenuOpen handPos pinchDist now s = s"
    by blast
  then show ?thesis
  proof cases
    case a with assms show ?thesis by (simp add: aim_flags)
  next
    case r
    have "30 < stretchDist s"
    proof (rule ccontr)
      assume "\<not> 30 < stretchDist s"
      from release_cancel [OF this] assms r show False by simp
    qed
    with r show ?thesis by simp
  next
    case b with assms show ?thesis by (simp add: springBack_flags)
  next
    case n with assms show ?thesis by simp
  qed
qed

lemma launch_speed:
  assumes "30 < stretchDist s"
  shows "currentSpeed (release now s) = stretchDist s * velocityMultiplier (stretchDist s)"
proof -
  let ?v = "velocityMultiplier (stretchDist s)"
  let ?dx = "x_p (anchorPos s) - x_p (ballPos s)"
  let ?dy = "y_p (anchorPos s) - y_p (ballPos s)"
  have "0 \<le> (min (stretchDist s / MAX_DRAG_DIST) 1)\<^sup>2" by simp
  then have pos: "0 \<le> ?v"
    by (simp add: velocityMultiplier_def MIN_FORCE_MULT_def MAX_FORCE_MULT_def)
  have "currentSpeed (release now s) = sqrt ((?dx * ?v)\<^sup>2 + (?dy * ?v)\<^sup>2)"
    by (simp add: release_launch [OF assms] currentSpeed_def)
  also have "(?dx * ?v)\<^sup>2 + (?dy * ?v)\<^sup>2 = (?dx * ?dx + ?dy * ?dy) * ?v\<^sup>2"
    by (simp add: power2_eq_square algebra_simps)
  also have "sqrt \<dots> = sqrt (?dx * ?dx + ?dy * ?dy) * ?v"
    using pos by (simp add: real_sqrt_mult)
  finally show ?thesis by (simp add: stretchDist_def)
qed

text \<open>
  Claim C10, as amended. While the ball is pinched within 180 units of the anchor (up to
  the rounding allowance), which the aiming branch establishes and the input handling
  keeps, a launch happens at a stretch \<open>d\<close> above 30 and at most 180, the velocity is
  \<open>(anchor - ballPos) * (0.15 + (0.45 - 0.15) * r * r)\<close> with \<open>r = min (d / 180) 1\<close>, and the
  speed is \<open>d * (0.15 + 0.3 * r^2)\<close>, hence at most 81, both up to the rounding allowance.
\<close>

theorem launch_speed_bounded:
  assumes "drawClamped s"
  shows "drawClamped (handleInput isMenuOpen handPos pinchDist now s)
    \<and> (\<not> isFlying s \<and> isFlying (handleInput isMenuOpen handPos pinchDist now s) \<longrightarrow>
          30 < stretchDist s \<and> stretchDist s \<le> 180 + 1 / 1000000
        \<and> ballVel (handleInput isMenuOpen handPos pinchDist now s)
            = \<lparr>x_p = (x_p (anchorPos s) - x_p (ballPos s))
                     * (0.15 + (0.45 - 0.15)
                         * (min (stretchDist s / 180) 1 * min (stretchDist s / 180) 1)),
               y_p = (y_p (anchorPos s) - y_p (ballPos s))
                     * (0.15 + (0.45 - 0.15)
                         * (min (stretchDist s / 180) 1 * min (stretchDist s / 180) 1))\<rparr>
        \<and> \<bar>currentSpeed (handleInput isMenuOpen handPos pinchDist now s)
             - stretchDist s * (0.15 + 0.3 * (min (stretchDist s / 180) 1)\<^sup>2)\<bar> \<le> 1 / 1000000
        \<and> currentSpeed (handleInput isMenuOpen handPos pinchDist now s) \<le> 81 + 1 / 1000000)"
proof (intro conjI impI)
  show "drawClamped (handleInput isMenuOpen handPos pinchDist now s)"
    by (rule handleInput_clamped [OF assms])
next
  assume l: "\<not> isFlying s \<and> isFlying (handleInput isMenuOpen handPos pinchDist now s)"
  then have h: "handleInput isMenuOpen handPos pinchDist now s = release now s"
    and p: "isPinching s" and d: "30 < stretchDist s"
    using handleInput_launch by blast+
  from assms p have c: "stretchDist s \<le> 180 + 1 / 1000000"
    by (simp add: drawClamped_def MAX_DRAG_DIST_def)
  let ?r = "min (stretchDist s / 180) 1"
  have v: "velocityMultiplier (stretchDist s) = 0.15 + 0.3 * ?r\<^sup>2"
    by (simp add: velocityMultiplier_def MAX_DRAG_DIST_def MIN_FORCE_MULT_def MAX_FORCE_MULT_def)
  have sp: "currentSpeed (handleInput isMenuOpen handPos pinchDist now s)
      = stretchDist s * (0.15 + 0.3 * ?r\<^sup>2)"
    by (simp add: h launch_speed [OF d] v)
  from d have "0 \<le> ?r" by simp
  moreover have "?r \<le> 1" by simp
  ultimately have "?r\<^sup>2 \<le> 1" by (simp add: power_le_one)
  then have "0.15 + 0.3 * ?r\<^sup>2 \<le> 0.45" by simp
  with c d have "stretchDist s * (0.15 + 0.3 * ?r\<^sup>2) \<le> (180 + 1 / 1000000) * 0.45"
    by (intro mult_mono) simp_all
  then have b: "currentSpeed (handleInput isMenuOpen handPos pinchDist now s) \<le> 81 + 1 / 1000000"
    by (simp add: sp)
  show "30 < stretchDist s" by (rule d)
  show "stretchDist s \<le> 180 + 1 / 1000000" by (rule c)
  show "ballVel (handleInput isMenuOpen handPos pinchDist now s)
            = \<lparr>x_p = (x_p (anchorPos s) - x_p (ballPos s))
                     * (0.15 + (0.45 - 0.15)
                         * (min (stretchDist s / 180) 1 * min (stretchDist s / 180) 1)),
               y_p = (y_p (anchorPos s) - y_p (ballPos s))
                     * (0.15 + (0.45 - 0.15)
                         * (min (stretchDist s / 180) 1 * min (stretchDist s / 180) 1))\<rparr>"
    by (simp add: h release_launch [OF d] v power2_eq_square)
  show "\<bar>currentSpeed (handleInput isMenuOpen handPos pinchDist now s)
             - stretchDist s * (0.15 + 0.3 * (min (stretchDist s / 180) 1)\<^sup>2)\<bar> \<le> 1 / 1000000"
    by (simp add: sp)
  show "currentSpeed (handleInput isMenuOpen handPos pinchDist now s) \<le> 81 + 1 / 1000000"
    by (rule b)
qed

theorem launch_speed_bounded_witness:
  "drawClamped (aimingState 180)
   \<and> \<not> isFlying (aimingState 180)
   \<and> isFlying (handleInput False None 1 0 (aimingState 180))
   \<and> 80 < currentSpeed (handleInput False None 1 0 (aimingState 180))
   \<and> currentSpeed (handleInput False None 1 0 (aimingState 180)) \<le> 81 + 1 / 1000000"
proof -
  have c: "drawClamped (aimingState 180)"
    by (simp add: drawClamped_def stretchDist_aimingState MAX_DRAG_DIST_def)
  have f: "isFlying (handleInput False None 1 0 (aimingState 180))"
    by (simp add: handleInput_def Let_def aimingState_fields
        release_launch stretchDist_aimingState)
  from launch_speed_bounded [OF c, of False None 1 0] f
  have near: "\<bar>currentSpeed (handleInput False None 1 0 (aimingState 180)) - 81\<bar> \<le> 1 / 1000000"
    and upper: "currentSpeed (handleInput False None 1 0 (aimingState 180)) \<le> 81 + 1 / 1000000"
    by (simp_all add: aimingState_fields stretchDist_aimingState)
  from near have lower: "80 < currentSpeed (handleInput False None 1 0 (aimingState 180))"
    by arith
  from c f lower upper show ?thesis by (simp add: aimingState_fields)
qed

lemma sqrt_values: "sqrt 8100 = 90" "sqrt 828100 = 910" "sqrt 32400 = 180" "sqrt 900 = 30"
  using real_sqrt_abs [of 90] real_sqrt_abs [of 910] real_sqrt_abs [of 180] real_sqrt_abs [of 30]
  by simp_all

lemma pinchedState_value:
  "pinchedState = (restingState [])\<lparr>isPinching := True, ballPos := \<lparr>x_p = 500, y_p = 590\<rparr>\<rparr>"
  by (simp add: pinchedState_def handleInput_def resize_def aim_def Let_def restingState_def
      PINCH_THRESHOLD_def MAX_DRAG_DIST_def sqrt_values)

lemma resizedLaunchState_value:
  "resizedLaunchState = (restingState [])\<lparr>ballPos := \<lparr>x_p = 500, y_p = 590\<rparr>,
      canvasHeight := 1720, anchorPos := \<lparr>x_p = 500, y_p = 1500\<rparr>,
      isFlying := True, flightStartTime := 16, ballVel := \<lparr>x_p = 0, y_p = 409.5\<rparr>\<rparr>"
  by (simp add: resizedLaunchState_def pinchedState_value handleInput_def resize_def release_def
      Let_def restingState_def PINCH_THRESHOLD_def MAX_DRAG_DIST_def MIN_FORCE_MULT_def
      MAX_FORCE_MULT_def SLINGSHOT_BOTTOM_OFFSET_def sqrt_values)

text \<open>
  Claim C10 as stated fails: the clamp is relative to the anchor of the aiming frame. When
  the canvas is resized in the frame of the release, the anchor has moved, the ball has
  not, and the stretch is 910: the projectile leaves with speed 409.5.
\<close>

theorem launch_speed_unbounded_after_resize:
  "\<not> isFlying pinchedState \<and> isPinching pinchedState \<and> stretchDist pinchedState = 90
   \<and> isFlying resizedLaunchState \<and> ballVel resizedLaunchState = \<lparr>x_p = 0, y_p = 409.5\<rparr>
   \<and> 81 < currentSpeed resizedLaunchState"
proof -
  have "currentSpeed resizedLaunchState = \<bar>409.5\<bar>"
    unfolding currentSpeed_def resizedLaunchState_value by (simp del: abs_numeral)
  then have "81 < currentSpeed resizedLaunchState" by simp
  moreover have "stretchDist pinchedState = 90"
    by (simp add: stretchDist_def pinchedState_value restingState_def sqrt_values)
  ultimately show ?thesis
    by (simp add: resizedLaunchState_value) (simp add: pinchedState_value restingState_def)
qed

subsection \<open>What the ceiling drop and the other operations do keep\<close>

text \<open>
  The flag that \<open>dropCeiling\<close> sets follows every bubble of the array: it is set exactly
  when it was set before or some bubble, active or popped, lies below the danger line.
\<close>

lemma foldl_max_gt_iff:
  "d < foldl (\<lambda>mx b. max mx (y_b b)) m bs \<longleftrightarrow> d < m \<or> (\<exists>b \<in> set bs. d < y_b b)"
  by (induction bs arbitrary: m) (auto simp add: less_max_iff_disj)

lemma dropCeiling_gameOver_iff:
  "isGameOver (dropCeiling width now pick s) \<longleftrightarrow>
     isGameOver s
     \<or> (\<exists>b \<in> set (bubbles (dropCeiling width now pick s)). y_p (anchorPos s) - 150 < y_b b)"
proof -
  let ?bs = "bubbles (dropCeiling width now pick s)"
  let ?d = "y_p (anchorPos s) - 150"
  have first: "newRowBubbles width now pick ! 0 \<in> set ?bs"
    by (simp add: bubbles_dropCeiling length_newRowBubbles)
  have "newRowBubbles width now pick ! 0 \<in> set (newRowBubbles width now pick)"
    by (simp add: length_newRowBubbles)
  then have "y_b (newRowBubbles width now pick ! 0) = 22"
    by (simp add: y_newRowBubbles)
  with first have "\<exists>b \<in> set ?bs. ?d < y_b b" if "?d < 0"
    using that by (intro bexI [of _ "newRowBubbles width now pick ! 0"]) simp_all
  then have "?d < lowestBubble ?bs \<longleftrightarrow> (\<exists>b \<in> set ?bs. ?d < y_b b)"
    unfolding lowestBubble_def foldl_max_gt_iff by blast
  then show ?thesis
    by (auto simp add: dropCeiling_def Let_def)
qed

text \<open>
  Cell uniqueness is kept by popping, by \<open>checkMatches\<close>, by \<open>dropCeiling\<close> (no row being
  negative), and by the landing block whenever the scan has an empty cell; the landing
  on a full field is the one case that breaks it.
\<close>

lemma cellsUnique_append:
  "cellsUnique (bs @ [b]) \<longleftrightarrow> cellsUnique bs \<and> (active b \<longrightarrow> \<not> occupied bs (row b) (col b))"
  by (auto simp add: cellsUnique_def occupied_def list_ex_iff image_iff; metis)

lemma cellsUnique_popBubble:
  assumes "cellsUnique bs"
  shows "cellsUnique (popBubble bs i)"
proof (cases "i < length bs")
  case False
  then have "length bs \<le> i" by simp
  then show ?thesis using assms by (simp add: popBubble_def list_update_beyond)
next
  case True
  have old: "bs = take i bs @ bs ! i # drop (Suc i) bs"
    using True by (rule id_take_nth_drop)
  have new: "popBubble bs i = take i bs @ (bs ! i)\<lparr>active := False\<rparr> # drop (Suc i) bs"
    using True by (simp add: popBubble_def upd_conv_take_nth_drop)
  from assms have "distinct (map (\<lambda>b. (row b, col b))
      (filter active (take i bs @ bs ! i # drop (Suc i) bs)))"
    unfolding cellsUnique_def using old by simp
  then have "distinct (map (\<lambda>b. (row b, col b))
      (filter active (take i bs @ (bs ! i)\<lparr>active := False\<rparr> # drop (Suc i) bs)))"
    by (auto split: if_splits)
  then show ?thesis unfolding cellsUnique_def new .
qed

lemma cellsUnique_foldl_popBubble:
  "cellsUnique bs \<Longrightarrow> cellsUnique (foldl popBubble bs ms)"
  by (induction ms arbitrary: bs) (simp_all add: cellsUnique_popBubble)

lemma cellsUnique_checkMatches:
  assumes "cellsUnique (bubbles s)"
  shows "cellsUnique (bubbles (snd (checkMatches start s)))"
  using assms by (simp add: checkMatches_def Let_def cellsUnique_foldl_popBubble)

lemma cellsUnique_dropCeiling:
  assumes "cellsUnique (bubbles s)" and "\<forall>b \<in> set (bubbles s). 0 \<le> row b"
  shows "cellsUnique (bubbles (dropCeiling width now pick s))"
proof -
  let ?cell = "\<lambda>b. (row b, col b)"
  let ?new = "newRowBubbles width now pick"
  let ?old = "map (shiftDown width) (bubbles s)"
  have n: "map ?cell (filter active ?new) = map (\<lambda>c. (0, int c)) [0..<12]"
    by (simp add: newRowBubbles_def newRowBubble_def Let_def GRID_COLS_def comp_def)
  have "distinct (map (\<lambda>c. (0::int, int c)) [0..<12])"
    by (simp add: distinct_map inj_on_def)
  then have dn: "distinct (map ?cell (filter active ?new))" by (simp only: n)
  have o: "map ?cell (filter active ?old)
      = map (\<lambda>rc. (fst rc + 1, snd rc)) (map ?cell (filter active (bubbles s)))"
    by (simp add: filter_map comp_def shiftDown_def Let_def)
  have "inj_on (\<lambda>rc :: int \<times> int. (fst rc + 1, snd rc)) A" for A
    by (auto simp add: inj_on_def prod_eq_iff)
  then have "distinct (map (\<lambda>rc :: int \<times> int. (fst rc + 1, snd rc)) ys)" if "distinct ys" for ys
    using that by (simp add: distinct_map)
  with assms(1) have d_old: "distinct (map ?cell (filter active ?old))"
    unfolding cellsUnique_def o by blast
  have rows_old: "0 < fst rc" if "rc \<in> set (map ?cell (filter active ?old))" for rc
    using that assms(2) by (auto simp add: shiftDown_def Let_def)
  have rows_new: "fst rc = 0" if "rc \<in> set (map ?cell (filter active ?new))" for rc
    using that unfolding n by auto
  have disj: "set (map ?cell (filter active ?new)) \<inter> set (map ?cell (filter active ?old)) = {}"
    using rows_old rows_new by fastforce
  from dn d_old disj show ?thesis
    by (simp add: cellsUnique_def bubbles_dropCeiling)
qed

lemma findLanding_free:
  assumes "cell \<in> set scanCells" and "\<not> occupied (bubbles s) (fst cell) (snd cell)"
  shows "bestDist (findLanding s width) \<noteq> None
    \<and> (bestRow (findLanding s width), bestCol (findLanding s width)) \<in> set scanCells
    \<and> \<not> occupied (bubbles s) (bestRow (findLanding s width)) (bestCol (findLanding s width))
    \<and> bestX (findLanding s width)
        = x_p (getBubblePos (bestRow (findLanding s width)) (bestCol (findLanding s width)) width)
    \<and> bestY (findLanding s width)
        = y_p (getBubblePos (bestRow (findLanding s width)) (bestCol (findLanding s width)) width)"
proof -
  let ?good = "\<lambda>cells b. bestDist b \<noteq> None \<and> (bestRow b, bestCol b) \<in> set cells
      \<and> \<not> occupied (bubbles s) (bestRow b) (bestCol b)
      \<and> bestX b = x_p (getBubblePos (bestRow b) (bestCol b) width)
      \<and> bestY b = y_p (getBubblePos (bestRow b) (bestCol b) width)"
  have keep: "bestDist (scanCell s width b c) \<noteq> None \<longrightarrow> ?good (cells @ [c]) (scanCell s width b c)"
    if "bestDist b \<noteq> None \<longrightarrow> ?good cells b" for cells b c
    using that by (auto simp add: scanCell_def Let_def split: option.splits)
  have found: "bestDist (scanCell s width b c) \<noteq> None"
    if "\<not> occupied (bubbles s) (fst c) (snd c) \<or> bestDist b \<noteq> None" for b c
    using that by (auto simp add: scanCell_def Let_def split: option.splits)
  have inv: "(bestDist (foldl (scanCell s width) b cells) \<noteq> None
        \<longrightarrow> ?good (pre @ cells) (foldl (scanCell s width) b cells))
      \<and> ((\<exists>c \<in> set cells. \<not> occupied (bubbles s) (fst c) (snd c)) \<or> bestDist b \<noteq> None
        \<longrightarrow> bestDist (foldl (scanCell s width) b cells) \<noteq> None)"
    if "bestDist b \<noteq> None \<longrightarrow> ?good pre b" for b pre cells
    using that
  proof (induction cells arbitrary: b pre)
    case Nil
    then show ?case by simp
  next
    case (Cons c cells)
    from keep [OF Cons.prems, of c]
    have k: "bestDist (scanCell s width b c) \<noteq> None \<longrightarrow> ?good (pre @ [c]) (scanCell s width b c)" .
    from Cons.IH [OF k] found [of c b] show ?case by auto
  qed
  from inv [of "\<lparr>bestDist = None, bestRow = 0, bestCol = 0, bestX = 0, bestY = 0\<rparr>" "[]" scanCells]
    assms
  show ?thesis unfolding findLanding_def by auto
qed

lemma cellsUnique_landProjectile:
  assumes "cellsUnique (bubbles s)"
    and "cell \<in> set scanCells" and "\<not> occupied (bubbles s) (fst cell) (snd cell)"
  shows "cellsUnique (bubbles (landProjectile width now s))"
proof -
  from findLanding_free [OF assms(2,3), of width]
  have free: "\<not> occupied (bubbles s) (bestRow (findLanding s width)) (bestCol (findLanding s width))"
    by simp
  let ?b = "\<lparr>id_b = CellId (bestRow (findLanding s width)) (bestCol (findLanding s width)) now,
     row = bestRow (findLanding s width), col = bestCol (findLanding s width),
     x_b = bestX (findLanding s width), y_b = bestY (findLanding s width),
     color = selectedColorRef s, active = True\<rparr>"
  let ?s1 = "s\<lparr>isFlying := False, bubbles := bubbles s @ [?b]\<rparr>"
  have "cellsUnique (bubbles ?s1)" using assms(1) free by (simp add: cellsUnique_append)
  then have "cellsUnique (bubbles (snd (checkMatches (length (bubbles s)) ?s1)))"
    by (rule cellsUnique_checkMatches)
  then show ?thesis by (simp add: landProjectile_def Let_def)
qed

end
